theory Spec2Isabelle
  imports Complex_Main "HOL-Library.While_Combinator" "HOL-Library.Multiset" "HOL-Library.Sublist"
begin

section \<open>Data model of the analyzer\<close>

text \<open>
  The analyzer package (\<^verbatim>\<open>@biokit/analyzer\<close>) classifies a repository, measures its
  quality, detects gaps and recommends improvements. TypeScript interfaces become records,
  string-literal unions become datatypes, \<^verbatim>\<open>T | null\<close> becomes \<open>T option\<close>, arrays
  become lists. Array lengths and other counts are natural numbers. A field whose name is
  taken in Isabelle or by another record carries a prefix (\<open>gap_file\<close> for \<^verbatim>\<open>file\<close>,
  \<open>quality_framework\<close> for the \<^verbatim>\<open>framework\<close> of \<^verbatim>\<open>CodeQuality\<close>).
\<close>

datatype RepoType = RequirementsOnly | PartialImplementation | ExistingApp | Hybrid

text \<open>
  \<^verbatim>\<open>packageJson\<close> has type \<^verbatim>\<open>any\<close>; the recommender only tests three of its
  members for truthiness (\<^verbatim>\<open>scripts?.env\<close>, \<^verbatim>\<open>readme\<close>, \<^verbatim>\<open>devDependencies?.eslint\<close>),
  so the record keeps exactly these three truth values.
\<close>

record PackageJson =
  scripts_env :: bool
  readme :: bool
  devDependencies_eslint :: bool

datatype Language = JavaScript | TypeScript | Python | OtherLanguage

record CodebaseAnalysis =
  framework :: string
  language :: Language
  code_hasTypescript :: bool
  components :: "string list"
  pages :: "string list"
  apis :: "string list"
  styles :: "string list"
  tests :: "string list"
  entryPoint :: "string option"
  packageJson :: "PackageJson option"

datatype DesignSystem = Biokit | MaterialUi | AntDesign | Chakra | Tailwind | OtherDs | NoneDs

record Metrics =
  linesOfCode :: nat
  fileCount :: nat
  testCoverage :: int
  componentCount :: nat

datatype PackageManager = Npm | Yarn | Pnpm

record CodeQuality =
  hasTests :: bool
  hasTypescript :: bool
  designSystem :: DesignSystem
  quality_framework :: string
  packageManager :: PackageManager
  metrics :: "Metrics option"

datatype GapType = Todo | Stub | Mock | Placeholder | Incomplete

datatype Priority = High | Medium | Low

record Gap =
  gap_type :: GapType
  gap_file :: string
  gap_line :: "nat option"
  description :: string
  priority :: "Priority option"

section \<open>Classifier (classifier.ts)\<close>

definition classifyRepository :: "bool \<Rightarrow> bool \<Rightarrow> CodebaseAnalysis option \<Rightarrow> RepoType" where
  "classifyRepository hasCode hasDocs codeAnalysis =
     (if \<not> hasCode \<and> hasDocs then RequirementsOnly
      else if hasCode \<and> \<not> hasDocs then ExistingApp
      else if hasCode \<and> hasDocs then
        (case codeAnalysis of
           Some ca \<Rightarrow>
             (let hasComponents = (length (components ca) > 0);
                  hasPages = (length (pages ca) > 0);
                  hasTests = (length (tests ca) > 0)
              in if \<not> hasComponents \<or> \<not> hasPages then PartialImplementation
                 else if hasTests \<and> length (components ca) > 5 then ExistingApp
                 else Hybrid)
         | None \<Rightarrow> PartialImplementation)
      else RequirementsOnly)"

section \<open>Recommendation engine (recommender.ts)\<close>

text \<open>
  \<^verbatim>\<open>self.indexOf(imp)\<close>: the index of the first element equal to \<open>imp\<close>, or \<open>-1\<close>.
\<close>

fun indexOf :: "'a list \<Rightarrow> 'a \<Rightarrow> int" where
  "indexOf [] x = -1"
| "indexOf (y # ys) x =
     (if y = x then 0 else (let i = indexOf ys x in if i < 0 then -1 else i + 1))"

text \<open>
  \<^verbatim>\<open>improvements.filter((imp, index, self) => self.indexOf(imp) === index)\<close>
\<close>

definition filterFirstIndex :: "'a list \<Rightarrow> 'a list" where
  "filterFirstIndex self =
     map snd (filter (\<lambda>(index, imp). indexOf self imp = int index) (enumerate 0 self))"

text \<open>\<^verbatim>\<open>String.prototype.includes\<close>: the needle occurs as a contiguous substring.\<close>

fun startsWith :: "string \<Rightarrow> string \<Rightarrow> bool" where
  "startsWith s [] = True"
| "startsWith [] (c # cs) = False"
| "startsWith (d # ds) (c # cs) = (d = c \<and> startsWith ds cs)"

fun str_includes :: "string \<Rightarrow> string \<Rightarrow> bool" where
  "str_includes [] needle = (needle = [])"
| "str_includes (c # cs) needle = (startsWith (c # cs) needle \<or> str_includes cs needle)"

text \<open>
  The body pushes onto \<^verbatim>\<open>improvements\<close> rule by rule; \<open>pushIf\<close> is one conditional
  \<^verbatim>\<open>improvements.push\<close>.
\<close>

definition pushIf :: "bool \<Rightarrow> string \<Rightarrow> string list \<Rightarrow> string list" where
  "pushIf b s improvements = (if b then improvements @ [s] else improvements)"

definition testRule :: "CodeQuality \<Rightarrow> string list \<Rightarrow> string list" where
  "testRule qa improvements =
     (if \<not> hasTests qa then
        improvements @ [''add-test-coverage: Add unit and integration tests'']
      else if (case metrics qa of None \<Rightarrow> False | Some m \<Rightarrow> testCoverage m < 60) then
        improvements @ [''improve-test-coverage: Increase test coverage to at least 80%'']
      else improvements)"

definition collectImprovements :: "CodebaseAnalysis \<Rightarrow> CodeQuality \<Rightarrow> Gap list \<Rightarrow> string list" where
  "collectImprovements ca qa gaps =
    (let i1 = pushIf (designSystem qa \<noteq> Biokit)
                ''migrate-to-biokit-design-system: Replace current UI components with biokit-design-system'' [];
         i2 = pushIf (\<not> hasTypescript qa)
                ''add-typescript: Convert JavaScript to TypeScript for better type safety'' i1;
         i3 = testRule qa i2;
         i4 = pushIf (length gaps > 10)
                ''complete-todos: Address TODO comments and incomplete implementations'' i3;
         mockDataGaps = filter (\<lambda>g. gap_type g = Mock) gaps;
         i5 = pushIf (length mockDataGaps > 0)
                ''replace-mock-data: Replace mock data with real API integrations'' i4;
         stubGaps = filter (\<lambda>g. gap_type g = Stub) gaps;
         i6 = pushIf (length stubGaps > 0)
                ''implement-stubs: Complete stub function implementations'' i5;
         i7 = pushIf (length (components ca) > 0)
                ''add-error-boundaries: Add React error boundaries for better error handling'' i6;
         i8 = i7 @ [''improve-accessibility: Ensure WCAG 2.1 AA compliance''];
         i9 = pushIf (framework ca = ''nextjs'')
                ''optimize-performance: Add Next.js performance optimizations (Image, Font, etc.)'' i8;
         i10 = pushIf (case packageJson ca of None \<Rightarrow> False | Some p \<Rightarrow> \<not> scripts_env p)
                ''extract-env-variables: Extract hardcoded values to environment variables'' i9;
         hasReadme = (case packageJson ca of None \<Rightarrow> False | Some p \<Rightarrow> readme p);
         i11 = pushIf (\<not> hasReadme)
                ''add-documentation: Add README and API documentation'' i10;
         i12 = i11 @ [''add-ci-cd: Set up continuous integration and deployment''];
         hasEslint = (case packageJson ca of None \<Rightarrow> False | Some p \<Rightarrow> devDependencies_eslint p);
         i13 = pushIf (\<not> hasEslint)
                ''add-linting: Add ESLint and Prettier for code quality'' i12;
         i14 = pushIf (framework ca = ''nextjs'' \<or> framework ca = ''gatsby'')
                ''improve-seo: Add SEO optimizations and meta tags'' i13;
         i15 = i14 @ [''add-loading-states: Add loading indicators for async operations''];
         i16 = pushIf (list_ex (\<lambda>c. str_includes c ''form'' \<or> str_includes c ''Form'') (components ca))
                ''add-form-validation: Add client and server-side form validation'' i15
     in i16)"

definition recommendImprovements ::
  "CodebaseAnalysis option \<Rightarrow> CodeQuality option \<Rightarrow> Gap list \<Rightarrow> string list" where
  "recommendImprovements codeAnalysis qualityAnalysis gaps =
     (case (codeAnalysis, qualityAnalysis) of
        (Some ca, Some qa) \<Rightarrow> filterFirstIndex (collectImprovements ca qa gaps)
      | _ \<Rightarrow> [])"

section \<open>Requirements extractor: feature deduplication (requirements.ts)\<close>

datatype FeatureStatus = Planned | InProgress | Completed

record ExtractedFeature =
  name :: string
  feature_description :: "string option"
  feature_priority :: "Priority option"
  status :: "FeatureStatus option"

text \<open>
  \<^verbatim>\<open>features.filter(feature => ...)\<close> with the closure's \<^verbatim>\<open>seen\<close> set threaded
  through the traversal. \<^verbatim>\<open>String.prototype.toLowerCase\<close> belongs to the platform and
  folds every cased letter of Unicode; the model takes it as the argument \<open>lowerCase\<close>,
  so what is proved of \<open>deduplicateFeatures\<close> holds for the platform's folding as for
  every other function on strings.
\<close>

fun dedupFilter ::
  "(string \<Rightarrow> string) \<Rightarrow> string set \<Rightarrow> ExtractedFeature list \<Rightarrow> ExtractedFeature list" where
  "dedupFilter lowerCase seen [] = []"
| "dedupFilter lowerCase seen (feature # rest) =
     (let key = lowerCase (name feature)
      in if key \<in> seen then dedupFilter lowerCase seen rest
         else feature # dedupFilter lowerCase (insert key seen) rest)"

definition deduplicateFeatures ::
  "(string \<Rightarrow> string) \<Rightarrow> ExtractedFeature list \<Rightarrow> ExtractedFeature list" where
  "deduplicateFeatures lowerCase features = dedupFilter lowerCase {} features"

text \<open>
  Every improvement string has the form \<^verbatim>\<open>key: description\<close>; its key is the text
  before the first colon. \<open>ruleTable\<close> lists the strings of the rules of
  \<^verbatim>\<open>recommendImprovements\<close> in source order.
\<close>

definition improvementKey :: "string \<Rightarrow> string" where
  "improvementKey s = takeWhile (\<lambda>c. c \<noteq> CHR '':'') s"

definition ruleTable :: "string list" where
  "ruleTable =
    [''migrate-to-biokit-design-system: Replace current UI components with biokit-design-system'',
     ''add-typescript: Convert JavaScript to TypeScript for better type safety'',
     ''add-test-coverage: Add unit and integration tests'',
     ''improve-test-coverage: Increase test coverage to at least 80%'',
     ''complete-todos: Address TODO comments and incomplete implementations'',
     ''replace-mock-data: Replace mock data with real API integrations'',
     ''implement-stubs: Complete stub function implementations'',
     ''add-error-boundaries: Add React error boundaries for better error handling'',
     ''improve-accessibility: Ensure WCAG 2.1 AA compliance'',
     ''optimize-performance: Add Next.js performance optimizations (Image, Font, etc.)'',
     ''extract-env-variables: Extract hardcoded values to environment variables'',
     ''add-documentation: Add README and API documentation'',
     ''add-ci-cd: Set up continuous integration and deployment'',
     ''add-linting: Add ESLint and Prettier for code quality'',
     ''improve-seo: Add SEO optimizations and meta tags'',
     ''add-loading-states: Add loading indicators for async operations'',
     ''add-form-validation: Add client and server-side form validation'']"

section \<open>Context selector (context-selection pattern)\<close>

datatype FileType = Component | Util | Style | Config | Test

text \<open>
  \<^verbatim>\<open>lastModified\<close> is a point in time; a \<^verbatim>\<open>ScoredFile\<close> is a \<^verbatim>\<open>FileManifest\<close>
  with a \<^verbatim>\<open>score\<close>. The options \<^verbatim>\<open>maxTokens\<close> and \<^verbatim>\<open>maxFiles\<close> and the depth
  bound of the dependency expansion are counts, hence natural numbers.
\<close>

record FileManifest =
  path :: string
  content :: string
  file_type :: FileType
  file_size :: nat
  dependencies :: "string list"
  exports :: "string list"
  lastModified :: nat

record ScoredFile = FileManifest +
  score :: int

record ContextSelectionOptions =
  maxTokens :: nat
  maxFiles :: nat
  priorityPaths :: "string list option"
  excludePaths :: "string list option"

datatype Action = Create | Update | Fix | Refactor | Enhance

datatype Complexity = Simple | Moderate | Complex

record ParsedIntent =
  action :: Action
  targetPath :: "string option"
  component :: "string option"
  intent_keywords :: "string list"
  fileTypes :: "FileType list"
  complexity :: Complexity

text \<open>
  The class \<^verbatim>\<open>ContextSelector\<close> reads its tokenizer and its intent analyzer from fields
  and calls three private methods whose bodies are not part of the sources. They are the
  fields of the record below, so every function of the class takes them as data:
  \<^verbatim>\<open>this.tokenizer.count\<close> (a token count is a natural number),
  \<^verbatim>\<open>this.analyzer.parseIntent\<close>, \<^verbatim>\<open>this.truncateToTokens\<close>,
  \<^verbatim>\<open>this.hasRelevantDependencies\<close> and \<^verbatim>\<open>this.daysSince\<close>. Nothing in the
  sources bounds what \<^verbatim>\<open>daysSince\<close> returns: it is an integer number of days of either
  sign, negative for a modification time that lies ahead of the clock. The last field is
  the platform's \<^verbatim>\<open>String.prototype.toLowerCase\<close>, which folds every cased letter of
  Unicode: it is data of the model like the others, so that the score is the code's score
  for whatever the platform folds.
\<close>

record ContextSelector =
  tokenizer_count :: "string \<Rightarrow> nat"
  analyzer_parseIntent :: "string \<Rightarrow> ParsedIntent"
  truncateToTokens :: "ScoredFile \<Rightarrow> nat \<Rightarrow> ScoredFile"
  hasRelevantDependencies :: "FileManifest \<Rightarrow> ParsedIntent \<Rightarrow> bool"
  daysSince :: "nat \<Rightarrow> int"
  string_toLowerCase :: "string \<Rightarrow> string"

text \<open>
  \<^verbatim>\<open>intent.targetPath && file.path.includes(intent.targetPath)\<close>: an absent and an empty
  target path are both falsy.
\<close>

definition targetPathMatches :: "FileManifest \<Rightarrow> ParsedIntent \<Rightarrow> bool" where
  "targetPathMatches file intent =
     (case targetPath intent of
        None \<Rightarrow> False
      | Some p \<Rightarrow> p \<noteq> [] \<and> str_includes (path file) p)"

definition calculateRelevanceScore :: "ContextSelector \<Rightarrow> FileManifest \<Rightarrow> ParsedIntent \<Rightarrow> int" where
  "calculateRelevanceScore this file intent =
     (let score0 = 0;
          score1 = (if targetPathMatches file intent then score0 + 30 else score0);
          keywordMatches = length (filter
             (\<lambda>keyword. str_includes (string_toLowerCase this (content file))
                           (string_toLowerCase this keyword))
             (intent_keywords intent));
          score2 = score1 + min 25 (int keywordMatches * 5);
          score3 = (if file_type file \<in> set (fileTypes intent) then score2 + 20 else score2);
          score4 = (if hasRelevantDependencies this file intent then score3 + 15 else score3);
          daysSinceModified = daysSince this (lastModified file);
          score5 = score4 + max 0 (10 - daysSinceModified)
      in score5)"

text \<open>
  The score as the specification words it, to be compared with the one above: 30 when the
  file's path contains the intent's target path, 5 per occurrence of a keyword in the
  content with at most five occurrences counted, 20 for the file type, 15 for a relevant
  dependency, and the recency term. \<open>countOccurrences\<close> counts the positions of the
  content at which the keyword starts.
\<close>

fun countOccurrences :: "string \<Rightarrow> string \<Rightarrow> nat" where
  "countOccurrences [] needle = 0"
| "countOccurrences (c # cs) needle =
     (if startsWith (c # cs) needle then 1 else 0) + countOccurrences cs needle"

definition specifiedRelevanceScore :: "ContextSelector \<Rightarrow> FileManifest \<Rightarrow> ParsedIntent \<Rightarrow> int" where
  "specifiedRelevanceScore this file intent =
     (if (case targetPath intent of None \<Rightarrow> False | Some p \<Rightarrow> str_includes (path file) p)
      then 30 else 0)
     + 5 * min 5 (int (sum_list (map
         (\<lambda>keyword. countOccurrences (string_toLowerCase this (content file))
                       (string_toLowerCase this keyword))
         (intent_keywords intent))))
     + (if file_type file \<in> set (fileTypes intent) then 20 else 0)
     + (if hasRelevantDependencies this file intent then 15 else 0)
     + max 0 (10 - daysSince this (lastModified file))"

text \<open>\<^verbatim>\<open>{ ...file, score: ... }\<close>\<close>

definition withScore :: "FileManifest \<Rightarrow> int \<Rightarrow> ScoredFile" where
  "withScore f s =
     \<lparr> path = path f, content = content f, file_type = file_type f, file_size = file_size f,
       dependencies = dependencies f, exports = exports f, lastModified = lastModified f,
       score = s \<rparr>"

definition scoreFiles :: "ContextSelector \<Rightarrow> FileManifest list \<Rightarrow> ParsedIntent \<Rightarrow> ScoredFile list" where
  "scoreFiles this files intent =
     map (\<lambda>file. withScore file (calculateRelevanceScore this file intent)) files"

text \<open>
  \<^verbatim>\<open>files.sort((a, b) => b.score - a.score)\<close>: descending by score; the sort is stable.
\<close>

definition sortByScore :: "ScoredFile list \<Rightarrow> ScoredFile list" where
  "sortByScore files = sort_key (\<lambda>f. - score f) files"

text \<open>
  The \<^verbatim>\<open>for\<close> loop of \<^verbatim>\<open>selectWithinBudget\<close> over the sorted files, with the two
  locals \<^verbatim>\<open>selected\<close> and \<^verbatim>\<open>currentTokens\<close>; the \<^verbatim>\<open>break\<close> ends the recursion.
\<close>

fun budgetLoop ::
  "ContextSelector \<Rightarrow> nat \<Rightarrow> ScoredFile list \<Rightarrow> nat \<Rightarrow> ScoredFile list \<Rightarrow> ScoredFile list" where
  "budgetLoop this maxTok selected currentTokens [] = selected"
| "budgetLoop this maxTok selected currentTokens (file # rest) =
     (let fileTokens = tokenizer_count this (content file)
      in if currentTokens + fileTokens \<le> maxTok then
           budgetLoop this maxTok (selected @ [file]) (currentTokens + fileTokens) rest
         else if length selected = 0 then
           selected @ [truncateToTokens this file maxTok]
         else budgetLoop this maxTok selected currentTokens rest)"

definition selectWithinBudget :: "ContextSelector \<Rightarrow> ScoredFile list \<Rightarrow> nat \<Rightarrow> ScoredFile list" where
  "selectWithinBudget this files maxTok = budgetLoop this maxTok [] 0 (sortByScore files)"

text \<open>
  Modelled from the spec: \<^verbatim>\<open>applyPriorities\<close> is called by \<^verbatim>\<open>selectFiles\<close> with the
  scored files and the options (the only place the \<^verbatim>\<open>maxFiles\<close> option can be read), but
  its body is not part of the sources. The specification says that files are ranked by
  descending score and that a file count ceiling is enforced independently of the token
  budget; accordingly the model passes on the \<^verbatim>\<open>maxFiles\<close> best-scoring files. The
  specification does not say what \<^verbatim>\<open>priorityPaths\<close> and \<^verbatim>\<open>excludePaths\<close> do, and the
  model does not read them.
\<close>

definition applyPriorities :: "ScoredFile list \<Rightarrow> ContextSelectionOptions \<Rightarrow> ScoredFile list" where
  "applyPriorities scoredFiles options = take (maxFiles options) (sortByScore scoredFiles)"

definition selectFiles ::
  "ContextSelector \<Rightarrow> FileManifest list \<Rightarrow> string \<Rightarrow> ContextSelectionOptions \<Rightarrow> ScoredFile list" where
  "selectFiles this manifest userIntent options =
     (let intent = analyzer_parseIntent this userIntent;
          scoredFiles = scoreFiles this manifest intent;
          prioritized = applyPriorities scoredFiles options
      in selectWithinBudget this prioritized (maxTokens options))"

subsection \<open>Dependency graph\<close>

text \<open>
  A \<^verbatim>\<open>DependencyGraph\<close> is a \<^verbatim>\<open>Map<string, Set<string>>\<close>. A JavaScript \<^verbatim>\<open>Set\<close>
  iterates in insertion order, so a set of paths is a list of paths, and \<^verbatim>\<open>add\<close>
  appends a path that is not yet a member.
\<close>

type_synonym DependencyGraph = "string \<rightharpoonup> string list"

definition setAdd :: "string list \<Rightarrow> string \<Rightarrow> string list" where
  "setAdd s x = (if x \<in> set s then s else s @ [x])"

text \<open>
  One iteration of the \<^verbatim>\<open>while (queue.length > 0)\<close> loop of \<^verbatim>\<open>findRelatedFiles\<close> on
  the state \<open>(queue, related)\<close>: \<^verbatim>\<open>queue.shift()\<close>, the depth test with its
  \<^verbatim>\<open>continue\<close>, \<^verbatim>\<open>related.add(file)\<close>, and the inner \<^verbatim>\<open>for\<close> loop pushing the
  dependencies that are not in \<^verbatim>\<open>related\<close>.
\<close>

definition pushDeps ::
  "string list \<Rightarrow> nat \<Rightarrow> string list \<Rightarrow> (string \<times> nat) list \<Rightarrow> (string \<times> nat) list" where
  "pushDeps related currentDepth deps queue =
     fold (\<lambda>dep q. if dep \<notin> set related then q @ [(dep, currentDepth + 1)] else q) deps queue"

definition bfsStep ::
  "DependencyGraph \<Rightarrow> nat \<Rightarrow> (string \<times> nat) list \<times> string list
     \<Rightarrow> (string \<times> nat) list \<times> string list" where
  "bfsStep graph depth s =
     (case s of
        ([], related) \<Rightarrow> ([], related)
      | ((file, currentDepth) # queue, related) \<Rightarrow>
          if currentDepth > depth then (queue, related)
          else
            (let related' = setAdd related file;
                 deps = (case graph file of Some ds \<Rightarrow> ds | None \<Rightarrow> [])
             in (pushDeps related' currentDepth deps queue, related')))"

definition findRelatedFiles :: "string \<Rightarrow> DependencyGraph \<Rightarrow> nat \<Rightarrow> string list option" where
  "findRelatedFiles targetFile graph depth =
     map_option snd
       (while_option (\<lambda>(queue, related). length queue > 0) (bfsStep graph depth)
          ([(targetFile, 0)], []))"

text \<open>
  The measure of the loop: every queue entry weighs \<open>depth + 1\<close> minus its own depth (zero
  once it lies beyond the bound), and the queue is the multiset of these weights.
\<close>

definition queueWeight :: "nat \<Rightarrow> (string \<times> nat) list \<Rightarrow> nat multiset" where
  "queueWeight depth queue = mset (map (\<lambda>(f, d). Suc depth - d) queue)"

section \<open>Gap detector (gaps.ts)\<close>

text \<open>
  \<^verbatim>\<open>findTODOs\<close> tests every line against one regular expression. The expressions it
  needs are: the empty expression, a literal character, \<^verbatim>\<open>\s\<close>, \<^verbatim>\<open>.\<close>,
  concatenation, alternation, the greedy \<^verbatim>\<open>?\<close> and \<^verbatim>\<open>*\<close>, and a numbered
  capturing group; \<^verbatim>\<open>r+\<close> is \<^verbatim>\<open>rr*\<close>.
\<close>

datatype regex =
    Eps
  | Lit char
  | Space
  | Dot
  | Seq regex regex
  | Alt regex regex
  | Opt regex
  | Star regex
  | Grp nat regex

text \<open>
  The characters of \<^verbatim>\<open>\s\<close> and the line terminators excluded from \<^verbatim>\<open>.\<close>, as far
  as they are ASCII.
\<close>

definition isSpace :: "char \<Rightarrow> bool" where
  "isSpace c = (c \<in> set [CHR '' '', CHR 0x09, CHR 0x0A, CHR 0x0B, CHR 0x0C, CHR 0x0D])"

definition isLineTerminator :: "char \<Rightarrow> bool" where
  "isLineTerminator c = (c = CHR 0x0A \<or> c = CHR 0x0D)"

text \<open>
  Under the \<^verbatim>\<open>i\<close> flag a letter of the pattern matches either of its cases. The
  letters of \<open>todoPattern\<close> are ASCII and the flag lets no character beyond ASCII match an
  ASCII letter, so comparing characters after folding \<open>A\<close> to \<open>Z\<close> is what the flag
  does here. \<open>toLowerCase\<close> folds a string the same way; it serves to name the spellings
  of a marker.
\<close>

definition toLowerChar :: "char \<Rightarrow> char" where
  "toLowerChar c =
     (case map_of (zip ''ABCDEFGHIJKLMNOPQRSTUVWXYZ'' ''abcdefghijklmnopqrstuvwxyz'') c of
        Some l \<Rightarrow> l
      | None \<Rightarrow> c)"

definition toLowerCase :: "string \<Rightarrow> string" where
  "toLowerCase s = map toLowerChar s"

type_synonym captures = "(nat \<times> string) list"

text \<open>
  The backtracking matcher: \<open>rxm ic r s cs\<close> lists, in the order in which a backtracking
  engine tries them, the ways \<open>r\<close> can match a prefix of \<open>s\<close>, each as the unmatched
  rest with the captures made so far. Greedy operators list the longer match first; an
  iteration of \<^verbatim>\<open>*\<close> that consumes nothing is not repeated. \<open>ic\<close> is the
  \<^verbatim>\<open>i\<close> flag.
\<close>

fun rxm :: "bool \<Rightarrow> regex \<Rightarrow> string \<Rightarrow> captures \<Rightarrow> (string \<times> captures) list" where
  "rxm ic Eps s cs = [(s, cs)]"
| "rxm ic (Lit c) s cs =
     (case s of
        [] \<Rightarrow> []
      | d # rest \<Rightarrow>
          if (if ic then toLowerChar d = toLowerChar c else d = c) then [(rest, cs)] else [])"
| "rxm ic Space s cs =
     (case s of [] \<Rightarrow> [] | d # rest \<Rightarrow> if isSpace d then [(rest, cs)] else [])"
| "rxm ic Dot s cs =
     (case s of [] \<Rightarrow> [] | d # rest \<Rightarrow> if isLineTerminator d then [] else [(rest, cs)])"
| "rxm ic (Seq a b) s cs = concat (map (\<lambda>p. rxm ic b (fst p) (snd p)) (rxm ic a s cs))"
| "rxm ic (Alt a b) s cs = rxm ic a s cs @ rxm ic b s cs"
| "rxm ic (Opt a) s cs = rxm ic a s cs @ [(s, cs)]"
| "rxm ic (Star a) s cs =
     concat (map (\<lambda>p. if length (fst p) < length s then rxm ic (Star a) (fst p) (snd p) else [])
               (rxm ic a s cs))
     @ [(s, cs)]"
| "rxm ic (Grp n a) s cs =
     map (\<lambda>p. (fst p, (n, take (length s - length (fst p)) s) # snd p)) (rxm ic a s cs)"

text \<open>
  \<^verbatim>\<open>line.match(pattern)\<close> without the \<^verbatim>\<open>g\<close> flag: the first way to match at the
  leftmost position where the pattern matches at all.
\<close>

fun regexSearch :: "bool \<Rightarrow> regex \<Rightarrow> string \<Rightarrow> captures option" where
  "regexSearch ic r s =
     (case rxm ic r s [] of
        p # _ \<Rightarrow> Some (snd p)
      | [] \<Rightarrow> (case s of [] \<Rightarrow> None | c # s' \<Rightarrow> regexSearch ic r s'))"

fun lits :: "string \<Rightarrow> regex" where
  "lits [] = Eps"
| "lits [c] = Lit c"
| "lits (c # cs) = Seq (Lit c) (lits cs)"

definition markers :: "string list" where
  "markers = [''TODO'', ''FIXME'', ''HACK'', ''XXX'', ''NOTE'', ''OPTIMIZE'', ''REFACTOR'']"

text \<open>
  \<^verbatim>\<open>/\/\/\s*(TODO|FIXME|HACK|XXX|NOTE|OPTIMIZE|REFACTOR):?\s*(.+)/i\<close>, in three
  pieces: the marker group, the optional colon with the description group, and the whole.
\<close>

definition markerGroup :: regex where
  "markerGroup =
     Grp 1 (Alt (lits ''TODO'') (Alt (lits ''FIXME'') (Alt (lits ''HACK'')
       (Alt (lits ''XXX'') (Alt (lits ''NOTE'') (Alt (lits ''OPTIMIZE'') (lits ''REFACTOR'')))))))"

definition descriptionTail :: regex where
  "descriptionTail = Seq (Opt (Lit CHR '':'')) (Seq (Star Space) (Grp 2 (Seq Dot (Star Dot))))"

definition markerAndDescription :: regex where
  "markerAndDescription = Seq markerGroup descriptionTail"

definition todoPattern :: regex where
  "todoPattern =
     Seq (Lit CHR ''/'') (Seq (Lit CHR ''/'') (Seq (Star Space) markerAndDescription))"

text \<open>
  \<^verbatim>\<open>match[n]\<close>. Both groups of \<open>todoPattern\<close> stand outside every alternative and
  quantifier, so both are set in every match.
\<close>

definition groupText :: "captures \<Rightarrow> nat \<Rightarrow> string" where
  "groupText cs n = (case map_of cs n of Some s \<Rightarrow> s | None \<Rightarrow> [])"

text \<open>\<^verbatim>\<open>String.prototype.trim\<close> and \<^verbatim>\<open>toUpperCase\<close> (on ASCII).\<close>

definition trim :: "string \<Rightarrow> string" where
  "trim s = rev (dropWhile isSpace (rev (dropWhile isSpace s)))"

definition toUpperChar :: "char \<Rightarrow> char" where
  "toUpperChar c =
     (case map_of (zip ''abcdefghijklmnopqrstuvwxyz'' ''ABCDEFGHIJKLMNOPQRSTUVWXYZ'') c of
        Some u \<Rightarrow> u
      | None \<Rightarrow> c)"

definition toUpperCase :: "string \<Rightarrow> string" where
  "toUpperCase s = map toUpperChar s"

text \<open>
  \<^verbatim>\<open>lines.forEach((line, index) => ...)\<close>, pushing one gap for every matching line.
\<close>

definition findTODOs :: "string \<Rightarrow> string list \<Rightarrow> Gap list" where
  "findTODOs file lines =
     concat (map (\<lambda>(index, line).
        case regexSearch True todoPattern line of
          Some match \<Rightarrow>
            [\<lparr> gap_type = Todo, gap_file = file, gap_line = Some (index + 1),
               description = trim (groupText match 2),
               priority = Some (if toUpperCase (groupText match 1) = ''FIXME'' then High else Medium) \<rparr>]
        | None \<Rightarrow> [])
       (enumerate 0 lines))"

section \<open>Quality analyzer: metrics (quality.ts)\<close>

text \<open>
  JavaScript numbers are IEEE 754 double-precision values, and \<^verbatim>\<open>calculateMetrics\<close>
  computes the coverage estimate with one division and one multiplication of such values.
  A double is a rational number; an arithmetic operation returns the exact result rounded
  to the nearest double, a tie going to the double with the even significand. The operands
  here are array lengths (below \<open>2^32\<close>, so doubles themselves) and 100, and the results
  stay far from overflow and from the subnormal range.

  \<open>pow2 e\<close> is \<open>2^e\<close> for an integer exponent, \<open>bitLength n\<close> the number of binary
  digits of a positive integer, \<open>binade q\<close> the exponent \<open>e\<close> with
  \<open>2^e \<le> q < 2^(e+1)\<close>. A double in that binade is a multiple of \<open>2^(e-52)\<close>, which
  gives it 53 significant bits; \<open>fl q\<close> is the double nearest to \<open>q\<close>.
\<close>

definition pow2 :: "int \<Rightarrow> rat" where
  "pow2 e = (if 0 \<le> e then 2 ^ nat e else 1 / 2 ^ nat (- e))"

function bitLength :: "int \<Rightarrow> nat" where
  "bitLength n = (if n \<le> 0 then 0 else Suc (bitLength (n div 2)))"
  by pat_completeness auto
termination
  by (relation "measure nat") auto

declare bitLength.simps [simp del]

definition binade :: "rat \<Rightarrow> int" where
  "binade q =
     (let (a, b) = quotient_of q;
          e0 = int (bitLength a) - int (bitLength b)
      in if pow2 e0 \<le> q then e0 else e0 - 1)"

definition roundHalfEven :: "rat \<Rightarrow> int" where
  "roundHalfEven x =
     (let f = \<lfloor>x\<rfloor>; d = x - of_int f
      in if d < 1 / 2 then f else if d > 1 / 2 then f + 1 else if even f then f else f + 1)"

definition fl :: "rat \<Rightarrow> rat" where
  "fl q =
     (if q = 0 then 0
      else (let ulp = pow2 (binade \<bar>q\<bar> - 52) in of_int (roundHalfEven (q / ulp)) * ulp))"

text \<open>
  \<^verbatim>\<open>Math.round\<close> returns the integer nearest to its argument, the larger one in a tie.
\<close>

definition Math_round :: "rat \<Rightarrow> int" where
  "Math_round x = \<lfloor>x + 1 / 2\<rfloor>"

text \<open>
  \<^verbatim>\<open>Math.min(Math.round((testFiles.length / Math.max(codeFiles.length, 1)) * 100), 100)\<close>
\<close>

definition testCoverageEstimate :: "nat \<Rightarrow> nat \<Rightarrow> int" where
  "testCoverageEstimate testFilesLength codeFilesLength =
     min (Math_round (fl (fl (of_nat testFilesLength / of_nat (max codeFilesLength 1)) * 100))) 100"

text \<open>
  The file system is read through \<^verbatim>\<open>globby\<close> and \<^verbatim>\<open>fs.readFile\<close>, all inside one
  \<^verbatim>\<open>try\<close>. What they return is the argument of the model: the matched code files, each
  with the outcome of reading it (\<open>None\<close> when \<^verbatim>\<open>readFile\<close> rejects), the component
  files and the test files; the argument \<open>None\<close> stands for a rejected \<^verbatim>\<open>globby\<close>,
  whichever of the three calls it is.
  Every rejection ends in the \<^verbatim>\<open>catch\<close> block, which returns the default metrics.
  \<^verbatim>\<open>content.split('\n').length\<close> is the number of line feeds plus one.
\<close>

record GlobResults =
  codeFiles :: "(string \<times> string option) list"
  componentFiles :: "string list"
  testFiles :: "string list"

definition splitLength :: "string \<Rightarrow> nat" where
  "splitLength s = length (filter (\<lambda>c. c = CHR 0x0A) s) + 1"

text \<open>
  The \<^verbatim>\<open>for\<close> loop that reads the code files and adds up \<^verbatim>\<open>linesOfCode\<close> (here
  \<open>loc\<close>); it ends with \<open>None\<close> at the first file that cannot be read.
\<close>

fun countLines :: "(string \<times> string option) list \<Rightarrow> nat \<Rightarrow> nat option" where
  "countLines [] loc = Some loc"
| "countLines ((f, None) # rest) loc = None"
| "countLines ((f, Some c) # rest) loc = countLines rest (loc + splitLength c)"

definition defaultMetrics :: Metrics where
  "defaultMetrics = \<lparr> linesOfCode = 0, fileCount = 0, testCoverage = 0, componentCount = 0 \<rparr>"

definition calculateMetrics :: "GlobResults option \<Rightarrow> Metrics" where
  "calculateMetrics io =
     (case io of
        Some g \<Rightarrow>
          (case countLines (codeFiles g) 0 of
             Some loc \<Rightarrow>
               \<lparr> linesOfCode = loc,
                 fileCount = length (codeFiles g),
                 testCoverage = testCoverageEstimate (length (testFiles g)) (length (codeFiles g)),
                 componentCount = length (componentFiles g) \<rparr>
           | None \<Rightarrow> defaultMetrics)
      | None \<Rightarrow> defaultMetrics)"

text \<open>
  The formula of the specification, in exact arithmetic:
  \<open>min(100, round(100 \<times> testFileCount / max(1, sourceFileCount)))\<close>.
\<close>

definition coverageFormula :: "nat \<Rightarrow> nat \<Rightarrow> int" where
  "coverageFormula testFileCount sourceFileCount =
     min 100 (round (100 * of_nat testFileCount / of_nat (max 1 sourceFileCount) :: rat))"

section \<open>Sample inputs\<close>

definition sampleAnalysis :: "nat \<Rightarrow> nat \<Rightarrow> nat \<Rightarrow> CodebaseAnalysis" where
  "sampleAnalysis c p t =
     \<lparr> framework = ''nextjs'', language = TypeScript, code_hasTypescript = True,
       components = replicate c ''components/LoginForm.tsx'',
       pages = replicate p ''pages/index.tsx'', apis = [], styles = [],
       tests = replicate t ''a.test.ts'', entryPoint = None, packageJson = None \<rparr>"

definition sampleQuality :: CodeQuality where
  "sampleQuality =
     \<lparr> hasTests = False, hasTypescript = False, designSystem = Tailwind,
       quality_framework = ''Next.js'', packageManager = Npm, metrics = None \<rparr>"

definition mockGap :: Gap where
  "mockGap = \<lparr> gap_type = Mock, gap_file = ''a.ts'', gap_line = Some 3,
               description = ''Mock or hardcoded data detected'', priority = Some Medium \<rparr>"

definition ft :: "string \<Rightarrow> ExtractedFeature" where
  "ft n = \<lparr> name = n, feature_description = None, feature_priority = None, status = None \<rparr>"

definition cycleGraph :: DependencyGraph where
  "cycleGraph = map_of [(''A'', [''B'']), (''B'', [''A''])]"

definition wordCount :: "string \<Rightarrow> nat" where
  "wordCount s = length (filter (\<lambda>c. c = CHR '' '') s) + 1"

definition sampleSelector :: ContextSelector where
  "sampleSelector =
     \<lparr> tokenizer_count = wordCount,
       analyzer_parseIntent = (\<lambda>s. \<lparr> action = Fix, targetPath = Some ''login'', component = None,
          intent_keywords = [''login'', ''button'', ''onClick''], fileTypes = [Component],
          complexity = Simple \<rparr>),
       truncateToTokens = (\<lambda>f n. f\<lparr> content := take n (content f) \<rparr>),
       hasRelevantDependencies = (\<lambda>f i. dependencies f \<noteq> []),
       daysSince = (\<lambda>t. 20 - int t),
       string_toLowerCase = toLowerCase \<rparr>"

definition sampleIntent :: "string option \<Rightarrow> string list \<Rightarrow> FileType list \<Rightarrow> ParsedIntent" where
  "sampleIntent p ks ts =
     \<lparr> action = Fix, targetPath = p, component = None, intent_keywords = ks, fileTypes = ts,
       complexity = Simple \<rparr>"

definition sampleFile :: "string \<Rightarrow> string \<Rightarrow> nat \<Rightarrow> FileManifest" where
  "sampleFile p c t =
     \<lparr> path = p, content = c, file_type = Component, file_size = length c,
       dependencies = [], exports = [], lastModified = t \<rparr>"

definition sampleScored :: "string \<Rightarrow> string \<Rightarrow> int \<Rightarrow> ScoredFile" where
  "sampleScored p c s = withScore (sampleFile p c 0) s"

definition sampleOptions :: "nat \<Rightarrow> nat \<Rightarrow> ContextSelectionOptions" where
  "sampleOptions t n = \<lparr> maxTokens = t, maxFiles = n, priorityPaths = None, excludePaths = None \<rparr>"

text \<open>A repository of 40 code files, 23 of them test files.\<close>

definition sampleGlob :: GlobResults where
  "sampleGlob =
     \<lparr> codeFiles = replicate 17 (''src/a.ts'', Some ''export {}'')
         @ replicate 23 (''src/a.test.ts'', Some ''test()''),
       componentFiles = [],
       testFiles = replicate 23 ''src/a.test.ts'' \<rparr>"

text \<open>A repository of three code files, one of them a test file.\<close>

definition sampleThirds :: GlobResults where
  "sampleThirds =
     \<lparr> codeFiles = [(''a.ts'', Some ''export {}''), (''b.ts'', Some ''export {}''),
                    (''a.test.ts'', Some ''test()'')],
       componentFiles = [],
       testFiles = [''a.test.ts''] \<rparr>"

text \<open>The same repository with a code file that cannot be read.\<close>

definition sampleUnreadable :: GlobResults where
  "sampleUnreadable =
     \<lparr> codeFiles = [(''a.ts'', Some ''export {}''), (''b.ts'', None),
                    (''a.test.ts'', Some ''test()'')],
       componentFiles = [],
       testFiles = [''a.test.ts''] \<rparr>"

section \<open>Classifier: the decision table\<close>

text \<open>
  C1. The classifier is a total function into the four archetypes and follows the decision
  table: no code but docs gives requirements-only; code but no docs gives existing-app; with
  both, a missing analysis gives partial-implementation, otherwise no components or no pages
  gives partial-implementation, otherwise tests together with more than five components give
  existing-app, otherwise hybrid; with neither code nor docs the result is requirements-only.
\<close>

theorem classifyRepository_decision_table:
  "classifyRepository hasCode hasDocs ca \<in> {RequirementsOnly, PartialImplementation, ExistingApp, Hybrid}
   \<and> (\<not> hasCode \<and> hasDocs \<longrightarrow> classifyRepository hasCode hasDocs ca = RequirementsOnly)
   \<and> (hasCode \<and> \<not> hasDocs \<longrightarrow> classifyRepository hasCode hasDocs ca = ExistingApp)
   \<and> (hasCode \<and> hasDocs \<and> ca = None \<longrightarrow>
        classifyRepository hasCode hasDocs ca = PartialImplementation)
   \<and> (\<forall>a. hasCode \<and> hasDocs \<and> ca = Some a \<longrightarrow>
        classifyRepository hasCode hasDocs ca =
          (if length (components a) = 0 \<or> length (pages a) = 0 then PartialImplementation
           else if tests a \<noteq> [] \<and> length (components a) > 5 then ExistingApp
           else Hybrid))
   \<and> (\<not> hasCode \<and> \<not> hasDocs \<longrightarrow> classifyRepository hasCode hasDocs ca = RequirementsOnly)"
proof -
  have total: "classifyRepository hasCode hasDocs ca
      \<in> {RequirementsOnly, PartialImplementation, ExistingApp, Hybrid}"
    by (cases "classifyRepository hasCode hasDocs ca") simp_all
  have table: "hasCode \<and> hasDocs \<and> ca = Some a \<longrightarrow>
        classifyRepository hasCode hasDocs ca =
          (if length (components a) = 0 \<or> length (pages a) = 0 then PartialImplementation
           else if tests a \<noteq> [] \<and> length (components a) > 5 then ExistingApp
           else Hybrid)" for a
    by (simp add: classifyRepository_def Let_def)
  from total table show ?thesis
    by (simp add: classifyRepository_def)
qed

theorem classifyRepository_decision_table_witness:
  "classifyRepository False True None = RequirementsOnly
   \<and> classifyRepository True False None = ExistingApp
   \<and> classifyRepository True True None = PartialImplementation
   \<and> classifyRepository True True (Some (sampleAnalysis 8 0 1)) = PartialImplementation
   \<and> classifyRepository True True (Some (sampleAnalysis 6 1 1)) = ExistingApp
   \<and> classifyRepository True True (Some (sampleAnalysis 5 1 1)) = Hybrid
   \<and> classifyRepository True True (Some (sampleAnalysis 6 1 0)) = Hybrid
   \<and> classifyRepository False False None = RequirementsOnly"
  using classifyRepository_decision_table [of False True None]
    classifyRepository_decision_table [of True False None]
    classifyRepository_decision_table [of True True None]
    classifyRepository_decision_table [of True True "Some (sampleAnalysis 8 0 1)"]
    classifyRepository_decision_table [of True True "Some (sampleAnalysis 6 1 1)"]
    classifyRepository_decision_table [of True True "Some (sampleAnalysis 5 1 1)"]
    classifyRepository_decision_table [of True True "Some (sampleAnalysis 6 1 0)"]
    classifyRepository_decision_table [of False False None]
  by (simp add: sampleAnalysis_def)

section \<open>Context selector: budget, selection and score\<close>

lemma budgetLoop_fits:
  "selected \<noteq> [] \<Longrightarrow>
   sum_list (map (\<lambda>f. tokenizer_count this (content f)) selected) = cur \<Longrightarrow>
   cur \<le> maxTok \<Longrightarrow>
   sum_list (map (\<lambda>f. tokenizer_count this (content f)) (budgetLoop this maxTok selected cur rest))
     \<le> maxTok"
proof (induction rest arbitrary: selected cur)
  case Nil
  then show ?case by simp
next
  case (Cons entry rest)
  show ?case
  proof (cases "cur + tokenizer_count this (content entry) \<le> maxTok")
    case True
    have "sum_list (map (\<lambda>f. tokenizer_count this (content f))
            (budgetLoop this maxTok (selected @ [entry])
               (cur + tokenizer_count this (content entry)) rest)) \<le> maxTok"
      using Cons.prems True by (intro Cons.IH) simp_all
    with True show ?thesis by (simp add: Let_def)
  next
    case False
    with Cons.prems Cons.IH [of selected cur] show ?thesis by (simp add: Let_def)
  qed
qed

lemma budgetLoop_prefix:
  "selected \<noteq> [] \<Longrightarrow> \<exists>ys. budgetLoop this maxTok selected cur rest = selected @ ys"
proof (induction rest arbitrary: selected cur)
  case Nil
  then show ?case by simp
next
  case (Cons entry rest)
  show ?case
  proof (cases "cur + tokenizer_count this (content entry) \<le> maxTok")
    case True
    have "\<exists>ys. budgetLoop this maxTok (selected @ [entry])
            (cur + tokenizer_count this (content entry)) rest = (selected @ [entry]) @ ys"
      by (rule Cons.IH) simp
    with True show ?thesis by (auto simp: Let_def)
  next
    case False
    with Cons.prems Cons.IH [of selected cur] show ?thesis by (simp add: Let_def)
  qed
qed

lemma budgetLoop_length:
  "length (budgetLoop this maxTok selected cur rest) \<le> length selected + length rest"
proof (induction rest arbitrary: selected cur)
  case Nil
  show ?case by simp
next
  case (Cons entry rest)
  have a: "length (budgetLoop this maxTok (selected @ [entry])
            (cur + tokenizer_count this (content entry)) rest) \<le> length (selected @ [entry]) + length rest"
    by (rule Cons.IH)
  have b: "length (budgetLoop this maxTok selected cur rest) \<le> length selected + length rest"
    by (rule Cons.IH)
  from a b show ?case by (auto simp: Let_def)
qed

lemma sortByScore_set: "set (sortByScore files) = set files"
  by (simp add: sortByScore_def)

lemma sortByScore_length: "length (sortByScore files) = length files"
  by (simp add: sortByScore_def)

lemma sortByScore_top:
  assumes "sortByScore files = best # rest"
  shows "\<forall>f \<in> set files. score f \<le> score best"
proof
  fix f assume "f \<in> set files"
  then have mem: "f \<in> set (best # rest)" using assms sortByScore_set by metis
  have "sorted (map (\<lambda>f. - score f) (best # rest))"
    using assms sorted_sort_key [of "\<lambda>f. - score f" files] by (simp add: sortByScore_def)
  with mem show "score f \<le> score best" by auto
qed

lemma selectWithinBudget_cases:
  "(files = [] \<and> selectWithinBudget this files maxTok = [])
   \<or> (\<exists>best rest. sortByScore files = best # rest
        \<and> (\<forall>f \<in> set files. score f \<le> score best)
        \<and> (if tokenizer_count this (content best) \<le> maxTok
            then (\<exists>ys. selectWithinBudget this files maxTok = best # ys)
               \<and> sum_list (map (\<lambda>f. tokenizer_count this (content f))
                    (selectWithinBudget this files maxTok)) \<le> maxTok
            else selectWithinBudget this files maxTok = [truncateToTokens this best maxTok]))"
proof (cases "sortByScore files")
  case Nil
  then have "files = []" using sortByScore_length [of files] by simp
  then show ?thesis by (simp add: selectWithinBudget_def sortByScore_def)
next
  case (Cons best rest)
  note best = sortByScore_top [OF Cons]
  show ?thesis
  proof (cases "tokenizer_count this (content best) \<le> maxTok")
    case True
    have eq: "selectWithinBudget this files maxTok
        = budgetLoop this maxTok [best] (tokenizer_count this (content best)) rest"
      using True Cons by (simp add: selectWithinBudget_def Let_def)
    have "\<exists>ys. budgetLoop this maxTok [best] (tokenizer_count this (content best)) rest = [best] @ ys"
      by (rule budgetLoop_prefix) simp
    moreover have "sum_list (map (\<lambda>f. tokenizer_count this (content f))
        (budgetLoop this maxTok [best] (tokenizer_count this (content best)) rest)) \<le> maxTok"
      using True by (intro budgetLoop_fits) simp_all
    ultimately show ?thesis using Cons best True eq by auto
  next
    case False
    then have "selectWithinBudget this files maxTok = [truncateToTokens this best maxTok]"
      using Cons by (simp add: selectWithinBudget_def Let_def)
    with Cons best False show ?thesis by auto
  qed
qed

lemma selectWithinBudget_length:
  "length (selectWithinBudget this files maxTok) \<le> length files"
  using budgetLoop_length [of this maxTok "[]" 0 "sortByScore files"]
  by (simp add: selectWithinBudget_def sortByScore_length)

text \<open>
  C2. For every candidate list and every token limit, the estimated token counts of the
  selected files sum to at most the limit, or else the selection is exactly one file: the
  highest-scoring candidate, truncated to the limit, which alone exceeds the limit.
\<close>

theorem selectWithinBudget_budget:
  "sum_list (map (\<lambda>f. tokenizer_count this (content f)) (selectWithinBudget this files maxTok))
     \<le> maxTok
   \<or> (\<exists>best rest. sortByScore files = best # rest
        \<and> (\<forall>f \<in> set files. score f \<le> score best)
        \<and> maxTok < tokenizer_count this (content best)
        \<and> selectWithinBudget this files maxTok = [truncateToTokens this best maxTok])"
  using selectWithinBudget_cases [of files this maxTok]
  by (auto split: if_splits)

theorem selectWithinBudget_budget_witness:
  "sum_list (map (\<lambda>f. tokenizer_count sampleSelector (content f))
      (selectWithinBudget sampleSelector
         [sampleScored ''a.ts'' ''x y z'' 3, sampleScored ''b.ts'' ''a b c d e'' 9] 10)) = 8
   \<and> selectWithinBudget sampleSelector
         [sampleScored ''a.ts'' ''x y z'' 3, sampleScored ''b.ts'' ''a b c d e'' 9] 4
       = [truncateToTokens sampleSelector (sampleScored ''b.ts'' ''a b c d e'' 9) 4]"
proof -
  have a: "sum_list (map (\<lambda>f. tokenizer_count sampleSelector (content f))
      (selectWithinBudget sampleSelector
         [sampleScored ''a.ts'' ''x y z'' 3, sampleScored ''b.ts'' ''a b c d e'' 9] 10)) = 8"
    by code_simp
  have b: "sortByScore [sampleScored ''a.ts'' ''x y z'' 3, sampleScored ''b.ts'' ''a b c d e'' 9]
       = [sampleScored ''b.ts'' ''a b c d e'' 9, sampleScored ''a.ts'' ''x y z'' 3]"
    by (simp add: sortByScore_def sampleScored_def withScore_def)
  have c: "\<not> tokenizer_count sampleSelector (content (sampleScored ''b.ts'' ''a b c d e'' 9)) \<le> 4"
    by code_simp
  have d: "selectWithinBudget sampleSelector
         [sampleScored ''a.ts'' ''x y z'' 3, sampleScored ''b.ts'' ''a b c d e'' 9] 4
       = [truncateToTokens sampleSelector (sampleScored ''b.ts'' ''a b c d e'' 9) 4]
     \<or> sum_list (map (\<lambda>f. tokenizer_count sampleSelector (content f))
          (selectWithinBudget sampleSelector
            [sampleScored ''a.ts'' ''x y z'' 3, sampleScored ''b.ts'' ''a b c d e'' 9] 4)) \<le> 4"
    using selectWithinBudget_budget [of sampleSelector
      "[sampleScored ''a.ts'' ''x y z'' 3, sampleScored ''b.ts'' ''a b c d e'' 9]" 4] b
    by auto
  have e: "selectWithinBudget sampleSelector
         [sampleScored ''a.ts'' ''x y z'' 3, sampleScored ''b.ts'' ''a b c d e'' 9] 4
       = [truncateToTokens sampleSelector (sampleScored ''b.ts'' ''a b c d e'' 9) 4]"
    using b c by (simp add: selectWithinBudget_def Let_def)
  from a d e show ?thesis by simp
qed

text \<open>
  C3. For every non-empty candidate list the selection is non-empty: when the
  highest-scoring candidate alone exceeds the token limit, the selection is that candidate
  truncated to the limit; otherwise the highest-scoring candidate heads the selection.
\<close>

theorem selectWithinBudget_nonempty:
  "files \<noteq> [] \<Longrightarrow>
   selectWithinBudget this files maxTok \<noteq> []
   \<and> (\<exists>best rest. sortByScore files = best # rest
        \<and> (\<forall>f \<in> set files. score f \<le> score best)
        \<and> (if maxTok < tokenizer_count this (content best)
            then selectWithinBudget this files maxTok = [truncateToTokens this best maxTok]
            else hd (selectWithinBudget this files maxTok) = best))"
  using selectWithinBudget_cases [of files this maxTok]
  by (auto split: if_splits)

theorem selectWithinBudget_nonempty_witness:
  "selectWithinBudget sampleSelector
      [sampleScored ''a.ts'' ''x y z'' 3, sampleScored ''b.ts'' ''a b c d e'' 9] 4 \<noteq> []
   \<and> selectWithinBudget sampleSelector
      [sampleScored ''a.ts'' ''x y z'' 3, sampleScored ''b.ts'' ''a b c d e'' 9] 0 \<noteq> []"
  using selectWithinBudget_nonempty [of
      "[sampleScored ''a.ts'' ''x y z'' 3, sampleScored ''b.ts'' ''a b c d e'' 9]" sampleSelector 4]
    selectWithinBudget_nonempty [of
      "[sampleScored ''a.ts'' ''x y z'' 3, sampleScored ''b.ts'' ''a b c d e'' 9]" sampleSelector 0]
  by simp

text \<open>
  C4. For every manifest, intent and options, the number of files returned by
  \<^verbatim>\<open>selectFiles\<close> is at most the \<^verbatim>\<open>maxFiles\<close> option, whatever the token budget
  admits. The ceiling is that of \<open>applyPriorities\<close>; the budgeting step never returns more
  files than it is given.
\<close>

theorem selectFiles_maxFiles:
  "length (selectFiles this manifest userIntent options) \<le> maxFiles options"
proof -
  have "length (selectFiles this manifest userIntent options)
      \<le> length (applyPriorities (scoreFiles this manifest (analyzer_parseIntent this userIntent)) options)"
    by (simp add: selectFiles_def Let_def selectWithinBudget_length)
  also have "\<dots> \<le> maxFiles options"
    by (simp add: applyPriorities_def)
  finally show ?thesis .
qed

theorem selectFiles_maxFiles_witness:
  "length (selectFiles sampleSelector
      [sampleFile ''a.ts'' ''x y z'' 1, sampleFile ''login.ts'' ''Login a b c d'' 12,
       sampleFile ''c.ts'' ''button'' 20] ''fix the login button'' (sampleOptions 4000 2)) = 2"
proof -
  have "length (selectFiles sampleSelector
      [sampleFile ''a.ts'' ''x y z'' 1, sampleFile ''login.ts'' ''Login a b c d'' 12,
       sampleFile ''c.ts'' ''button'' 20] ''fix the login button'' (sampleOptions 4000 2)) \<ge> 2"
    by code_simp
  with selectFiles_maxFiles [of sampleSelector
      "[sampleFile ''a.ts'' ''x y z'' 1, sampleFile ''login.ts'' ''Login a b c d'' 12,
        sampleFile ''c.ts'' ''button'' 20]" "''fix the login button''" "sampleOptions 4000 2"]
  show ?thesis by (simp add: sampleOptions_def)
qed

text \<open>
  The recency term is bounded by 10 only for days that are not negative. With a clock that
  puts the modification five days ahead, a file that matches on all other signals scores
  105.
\<close>

lemma calculateRelevanceScore_recency_unbounded:
  "daysSince sampleSelector 25 = - 5
   \<and> calculateRelevanceScore sampleSelector
      ((sampleFile ''src/login/Button.tsx'' ''login button onclick form submit'' 25)
         \<lparr> dependencies := [''./form''] \<rparr>)
      (sampleIntent (Some ''login'') [''login'', ''button'', ''onclick'', ''form'', ''submit'']
         [Component]) = 105"
proof -
  have e: "daysSince sampleSelector 25 = - 5"
    by (simp add: sampleSelector_def)
  have f: "calculateRelevanceScore sampleSelector
      ((sampleFile ''src/login/Button.tsx'' ''login button onclick form submit'' 25)
         \<lparr> dependencies := [''./form''] \<rparr>)
      (sampleIntent (Some ''login'') [''login'', ''button'', ''onclick'', ''form'', ''submit'']
         [Component]) = 105"
    by code_simp
  from e f show ?thesis by blast
qed

text \<open>
  C5, as stated, fails on two inputs. A keyword counts once however often it occurs: the
  content \<^verbatim>\<open>login login login\<close> with the single keyword \<^verbatim>\<open>login\<close> scores 5, where 5
  per occurrence gives 15. And an empty target path is falsy, so it scores nothing although
  every path contains the empty string, where the wording gives 30.
\<close>

theorem calculateRelevanceScore_not_as_specified:
  "calculateRelevanceScore sampleSelector (sampleFile ''a.ts'' ''login login login'' 0)
      (sampleIntent None [''login''] []) = 5
   \<and> specifiedRelevanceScore sampleSelector (sampleFile ''a.ts'' ''login login login'' 0)
      (sampleIntent None [''login''] []) = 15
   \<and> calculateRelevanceScore sampleSelector (sampleFile ''a.ts'' ''x'' 0)
      (sampleIntent (Some []) [] []) = 0
   \<and> specifiedRelevanceScore sampleSelector (sampleFile ''a.ts'' ''x'' 0)
      (sampleIntent (Some []) [] []) = 30"
proof -
  have a: "calculateRelevanceScore sampleSelector (sampleFile ''a.ts'' ''login login login'' 0)
      (sampleIntent None [''login''] []) = 5"
    by code_simp
  have b: "specifiedRelevanceScore sampleSelector (sampleFile ''a.ts'' ''login login login'' 0)
      (sampleIntent None [''login''] []) = 15"
    by code_simp
  have c: "calculateRelevanceScore sampleSelector (sampleFile ''a.ts'' ''x'' 0)
      (sampleIntent (Some []) [] []) = 0"
    by code_simp
  have d: "specifiedRelevanceScore sampleSelector (sampleFile ''a.ts'' ''x'' 0)
      (sampleIntent (Some []) [] []) = 30"
    by code_simp
  from a b c d show ?thesis by blast
qed

text \<open>
  C5, amended. The relevance score of a file is the sum of five signals: 30 when the
  intent's target path is a non-empty string that occurs in the file's path; 5 for each
  entry of the intent's keyword list whose lower-cased form occurs at least once in the
  lower-cased content, at most five entries counted; 20 when the file's type is among the
  intent's file types; 15 when the file has a relevant dependency relationship; and
  \<open>max 0 (10 - days)\<close> for the days since the file was modified. Every score is at least
  0, and at most 100 whenever the days since the modification are not negative.
\<close>

theorem calculateRelevanceScore_signals:
  "calculateRelevanceScore this entry intent =
      (if (case targetPath intent of None \<Rightarrow> False
           | Some p \<Rightarrow> p \<noteq> [] \<and> str_includes (path entry) p) then 30 else 0)
    + 5 * min 5 (int (length (filter
         (\<lambda>keyword. str_includes (string_toLowerCase this (content entry))
                       (string_toLowerCase this keyword))
         (intent_keywords intent))))
    + (if file_type entry \<in> set (fileTypes intent) then 20 else 0)
    + (if hasRelevantDependencies this entry intent then 15 else 0)
    + max 0 (10 - daysSince this (lastModified entry))
   \<and> 0 \<le> calculateRelevanceScore this entry intent
   \<and> (0 \<le> daysSince this (lastModified entry)
        \<longrightarrow> calculateRelevanceScore this entry intent \<le> 100)"
  by (simp add: calculateRelevanceScore_def targetPathMatches_def Let_def min_def max_def)

theorem calculateRelevanceScore_signals_witness:
  "0 \<le> daysSince sampleSelector
       (lastModified (sampleFile ''src/login/Button.tsx'' ''the Login button onClick'' 15))
   \<and> calculateRelevanceScore sampleSelector
      (sampleFile ''src/login/Button.tsx'' ''the Login button onClick'' 15)
      (analyzer_parseIntent sampleSelector ''fix the login button'') = 70
   \<and> calculateRelevanceScore sampleSelector
      (sampleFile ''src/login/Button.tsx'' ''the Login button onClick'' 15)
      (analyzer_parseIntent sampleSelector ''fix the login button'') \<le> 100"
proof -
  have days: "0 \<le> daysSince sampleSelector
       (lastModified (sampleFile ''src/login/Button.tsx'' ''the Login button onClick'' 15))"
    by (simp add: sampleSelector_def sampleFile_def)
  have val: "calculateRelevanceScore sampleSelector
      (sampleFile ''src/login/Button.tsx'' ''the Login button onClick'' 15)
      (analyzer_parseIntent sampleSelector ''fix the login button'') = 70"
    by code_simp
  from calculateRelevanceScore_signals [of sampleSelector
      "sampleFile ''src/login/Button.tsx'' ''the Login button onClick'' 15"
      "analyzer_parseIntent sampleSelector ''fix the login button''"] days
  have "calculateRelevanceScore sampleSelector
      (sampleFile ''src/login/Button.tsx'' ''the Login button onClick'' 15)
      (analyzer_parseIntent sampleSelector ''fix the login button'') \<le> 100"
    by blast
  with days val show ?thesis by blast
qed

section \<open>Dependency expansion: termination\<close>

lemma pushDeps_append:
  "pushDeps related d deps queue
     = queue @ map (\<lambda>dep. (dep, d + 1)) (filter (\<lambda>dep. dep \<notin> set related) deps)"
  unfolding pushDeps_def by (induction deps arbitrary: queue) auto

lemma bfsStep_decreases:
  assumes "queue \<noteq> []"
  shows "(queueWeight depth (fst (bfsStep graph depth (queue, related))), queueWeight depth queue)
           \<in> mult less_than"
proof -
  from assms obtain f d rest where q: "queue = (f, d) # rest"
    by (cases queue) auto
  show ?thesis
  proof (cases "d > depth")
    case True
    have "(queueWeight depth rest + {#}, queueWeight depth rest + {#Suc depth - d#})
            \<in> mult less_than"
      by (rule one_step_implies_mult) simp_all
    with True q show ?thesis
      by (simp add: bfsStep_def queueWeight_def)
  next
    case False
    define new where "new = map (\<lambda>dep. (dep, d + 1))
        (filter (\<lambda>dep. dep \<notin> set (setAdd related f))
           (case graph f of Some ds \<Rightarrow> ds | None \<Rightarrow> []))"
    have step: "fst (bfsStep graph depth (queue, related)) = rest @ new"
      using False q by (simp add: bfsStep_def Let_def pushDeps_append new_def)
    have small: "\<forall>k \<in># queueWeight depth new. \<exists>j \<in># {#Suc depth - d#}. (k, j) \<in> less_than"
      using False by (auto simp: queueWeight_def new_def)
    have "(queueWeight depth rest + queueWeight depth new,
           queueWeight depth rest + {#Suc depth - d#}) \<in> mult less_than"
      using small by (intro one_step_implies_mult) simp_all
    with step q show ?thesis
      by (simp add: queueWeight_def)
  qed
qed

lemma bfs_loop_terminates:
  "\<exists>t. while_option (\<lambda>(queue, related). length queue > 0) (bfsStep graph depth) s = Some t"
proof (rule wf_while_option_Some [where P = "\<lambda>s. True"])
  have "wf (inv_image (mult less_than) (\<lambda>s. queueWeight depth (fst s)))"
    by (intro wf_inv_image wf_mult wf_less_than)
  moreover have "{(t, s). (True \<and> (case s of (queue, related) \<Rightarrow> length queue > 0))
        \<and> t = bfsStep graph depth s}
      \<subseteq> inv_image (mult less_than) (\<lambda>s. queueWeight depth (fst s))"
    using bfsStep_decreases by (auto simp: inv_image_def)
  ultimately show "wf {(t, s). (True \<and> (case s of (queue, related) \<Rightarrow> length queue > 0))
        \<and> t = bfsStep graph depth s}"
    by (rule wf_subset)
qed simp_all

lemma setAdd_distinct: "distinct s \<Longrightarrow> distinct (setAdd s x)"
  by (simp add: setAdd_def)

lemma bfsStep_distinct:
  "distinct (snd s) \<Longrightarrow> distinct (snd (bfsStep graph depth s))"
  by (auto simp: bfsStep_def Let_def setAdd_distinct split: prod.splits list.splits)

lemma bfsStep_target:
  assumes "t \<in> set (snd s) \<or> (t, 0) \<in> set (fst s)"
  shows "t \<in> set (snd (bfsStep graph depth s)) \<or> (t, 0) \<in> set (fst (bfsStep graph depth s))"
  using assms
  by (auto simp: bfsStep_def Let_def setAdd_def pushDeps_append split: prod.splits list.splits)

text \<open>
  C6. The breadth-first expansion terminates for every graph, every target and every depth
  bound, cycles included: the loop reaches a state with an empty queue. The returned list has
  no path twice and contains the target. On the cycle of \<open>A\<close> importing \<open>B\<close> and \<open>B\<close>
  importing \<open>A\<close>, started at \<open>A\<close> with the default depth 2, it returns \<open>A\<close> and \<open>B\<close>.
\<close>

theorem findRelatedFiles_terminates:
  "(\<exists>related. findRelatedFiles targetFile graph depth = Some related
       \<and> distinct related \<and> targetFile \<in> set related)
   \<and> findRelatedFiles ''A'' cycleGraph 2 = Some [''A'', ''B'']"
proof -
  obtain q r where run:
    "while_option (\<lambda>(queue, related). length queue > 0) (bfsStep graph depth)
       ([(targetFile, 0)], []) = Some (q, r)"
    using bfs_loop_terminates [of graph depth "([(targetFile, 0)], [])"] by force
  have "q = []"
    using while_option_stop [OF run] by simp
  have inv: "distinct (snd (q, r)) \<and> (targetFile \<in> set (snd (q, r)) \<or> (targetFile, 0) \<in> set (fst (q, r)))"
    by (rule while_option_rule [OF _ run,
          where P = "\<lambda>s. distinct (snd s) \<and> (targetFile \<in> set (snd s) \<or> (targetFile, 0) \<in> set (fst s))"])
       (use bfsStep_distinct bfsStep_target in auto)
  have general: "\<exists>related. findRelatedFiles targetFile graph depth = Some related
       \<and> distinct related \<and> targetFile \<in> set related"
    using run inv \<open>q = []\<close> by (simp add: findRelatedFiles_def)
  have cycle: "findRelatedFiles ''A'' cycleGraph 2 = Some [''A'', ''B'']"
    by code_simp
  from general cycle show ?thesis by blast
qed

section \<open>Gap detector: bare markers\<close>

lemmas todo_eval =
  findTODOs_def todoPattern_def markerAndDescription_def markerGroup_def descriptionTail_def
  enumerate_eq_zip isSpace_def isLineTerminator_def
  toLowerChar_def groupText_def trim_def toUpperCase_def toUpperChar_def

text \<open>
  C9, as stated, fails: a line that ends right after a marker and its colon is reported.
  On \<^verbatim>\<open>// FIXME:\<close> the optional colon gives way and the description group takes the
  colon, so the line yields a gap whose description is the colon.
\<close>

theorem findTODOs_marker_colon_reported:
  "findTODOs ''a.ts'' [''// FIXME:'']
     = [\<lparr> gap_type = Todo, gap_file = ''a.ts'', gap_line = Some 1, description = '':'',
          priority = Some High \<rparr>]"
  by (simp add: todo_eval)

subsection \<open>Whitespace before the marker, markers in any letter case\<close>

lemma toUpperChar_toLowerChar: "toUpperChar (toLowerChar c) = toUpperChar c"
  by (simp add: toUpperChar_def toLowerChar_def)

lemma toUpperCase_toLowerCase: "toUpperCase (toLowerCase s) = toUpperCase s"
  by (simp add: toUpperCase_def toLowerCase_def toUpperChar_toLowerChar)

lemma isSpace_lower:
  assumes "isSpace c"
  shows "toLowerChar c \<notin> set ''/tfhxnor''"
proof -
  from assms consider "c = CHR '' ''" | "c = CHR 0x09" | "c = CHR 0x0A" | "c = CHR 0x0B"
    | "c = CHR 0x0C" | "c = CHR 0x0D"
    by (auto simp: isSpace_def)
  then show ?thesis
    by cases (simp_all add: toLowerChar_def)
qed

lemma star_space_step:
  "isSpace w \<Longrightarrow>
   rxm ic (Star Space) (w # s) cs = rxm ic (Star Space) s cs @ [(w # s, cs)]"
  by (subst rxm.simps(8)) (simp del: rxm.simps(8))

lemma star_space_stop:
  "(\<forall>c r. s = c # r \<longrightarrow> \<not> isSpace c) \<Longrightarrow> rxm ic (Star Space) s cs = [(s, cs)]"
  by (subst rxm.simps(8)) (cases s; simp del: rxm.simps(8))

lemma star_space_then:
  assumes "list_all isSpace ws"
    and "\<forall>c r. s = c # r \<longrightarrow> \<not> isSpace c"
    and "\<And>c r. isSpace c \<Longrightarrow> F (c # r, cs) = []"
  shows "concat (map F (rxm ic (Star Space) (ws @ s) cs)) = F (s, cs)"
  using assms(1)
proof (induction ws)
  case Nil
  then show ?case using star_space_stop [OF assms(2)] by (simp del: rxm.simps(8))
next
  case (Cons w ws)
  then have "isSpace w" "list_all isSpace ws" by simp_all
  with Cons.IH assms(3) [of w "ws @ s"] show ?case
    by (simp only: append_Cons star_space_step map_append concat_append) (simp del: rxm.simps(8))
qed

lemma lower_lits:
  "toLowerChar CHR ''/'' = CHR ''/''" "toLowerChar CHR '':'' = CHR '':''"
  "toLowerChar CHR ''T'' = CHR ''t''" "toLowerChar CHR ''O'' = CHR ''o''"
  "toLowerChar CHR ''D'' = CHR ''d''" "toLowerChar CHR ''F'' = CHR ''f''"
  "toLowerChar CHR ''I'' = CHR ''i''" "toLowerChar CHR ''X'' = CHR ''x''"
  "toLowerChar CHR ''M'' = CHR ''m''" "toLowerChar CHR ''E'' = CHR ''e''"
  "toLowerChar CHR ''H'' = CHR ''h''" "toLowerChar CHR ''A'' = CHR ''a''"
  "toLowerChar CHR ''C'' = CHR ''c''" "toLowerChar CHR ''K'' = CHR ''k''"
  "toLowerChar CHR ''N'' = CHR ''n''" "toLowerChar CHR ''P'' = CHR ''p''"
  "toLowerChar CHR ''Z'' = CHR ''z''" "toLowerChar CHR ''R'' = CHR ''r''"
  by (simp_all add: toLowerChar_def)

lemma space_blocks_marker:
  "isSpace c \<Longrightarrow> rxm True markerAndDescription (c # r) cs = []"
  using isSpace_lower [of c]
  by (simp add: markerAndDescription_def markerGroup_def lower_lits del: rxm.simps(8))

lemma seq_star_space:
  assumes "list_all isSpace ws"
    and "\<forall>c r. s = c # r \<longrightarrow> \<not> isSpace c"
  shows "rxm True (Seq (Star Space) markerAndDescription) (ws @ s) cs
           = rxm True markerAndDescription s cs"
proof -
  have "concat (map (\<lambda>p. rxm True markerAndDescription (fst p) (snd p))
          (rxm True (Star Space) (ws @ s) cs))
      = (\<lambda>p. rxm True markerAndDescription (fst p) (snd p)) (s, cs)"
    by (rule star_space_then [OF assms]) (simp add: space_blocks_marker)
  then show ?thesis by (simp del: rxm.simps(8))
qed

lemma two_slashes:
  "rxm True todoPattern (CHR ''/'' # CHR ''/'' # s) []
     = rxm True (Seq (Star Space) markerAndDescription) s []"
  by (simp add: todoPattern_def lower_lits del: rxm.simps(8))

lemma one_slash:
  "(\<forall>c r. s = c # r \<longrightarrow> toLowerChar c \<noteq> CHR ''/'') \<Longrightarrow>
   rxm True todoPattern (CHR ''/'' # s) [] = []"
  by (cases s) (simp_all add: todoPattern_def lower_lits del: rxm.simps(8))

lemma no_slash:
  "(\<forall>c \<in> set s. toLowerChar c \<noteq> CHR ''/'') \<Longrightarrow> regexSearch True todoPattern s = None"
proof (induction s)
  case Nil
  show ?case
    by (subst regexSearch.simps) (simp add: todoPattern_def del: rxm.simps(8) regexSearch.simps)
next
  case (Cons c s)
  then have "rxm True todoPattern (c # s) [] = []"
    by (simp add: todoPattern_def lower_lits del: rxm.simps(8))
  with Cons show ?case
    by (subst regexSearch.simps) (simp del: rxm.simps(8) regexSearch.simps)
qed

lemma lower_markers:
  "map toLowerCase markers
     = [''todo'', ''fixme'', ''hack'', ''xxx'', ''note'', ''optimize'', ''refactor'']"
  by (simp add: markers_def toLowerCase_def lower_lits)

lemmas marker_eval =
  markerAndDescription_def markerGroup_def descriptionTail_def lower_lits
  isSpace_def isLineTerminator_def

lemma todo_end:
  assumes "map toLowerChar m = ''todo''"
  shows "rxm True markerAndDescription m cs = []"
    and "rxm True markerAndDescription (m @ '':'') cs = [([], (2, '':'') # (1, m) # cs)]"
proof -
  from assms obtain c1 c2 c3 c4 where m: "m = [c1, c2, c3, c4]"
    and l: "toLowerChar c1 = CHR ''t''" "toLowerChar c2 = CHR ''o''" "toLowerChar c3 = CHR ''d''" "toLowerChar c4 = CHR ''o''"
    by (auto simp: map_eq_Cons_conv)
  show "rxm True markerAndDescription m cs = []"
    unfolding m by (simp add: marker_eval l)
  show "rxm True markerAndDescription (m @ '':'') cs = [([], (2, '':'') # (1, m) # cs)]"
    unfolding m by (simp add: marker_eval l)
qed

lemma fixme_end:
  assumes "map toLowerChar m = ''fixme''"
  shows "rxm True markerAndDescription m cs = []"
    and "rxm True markerAndDescription (m @ '':'') cs = [([], (2, '':'') # (1, m) # cs)]"
proof -
  from assms obtain c1 c2 c3 c4 c5 where m: "m = [c1, c2, c3, c4, c5]"
    and l: "toLowerChar c1 = CHR ''f''" "toLowerChar c2 = CHR ''i''" "toLowerChar c3 = CHR ''x''" "toLowerChar c4 = CHR ''m''" "toLowerChar c5 = CHR ''e''"
    by (auto simp: map_eq_Cons_conv)
  show "rxm True markerAndDescription m cs = []"
    unfolding m by (simp add: marker_eval l)
  show "rxm True markerAndDescription (m @ '':'') cs = [([], (2, '':'') # (1, m) # cs)]"
    unfolding m by (simp add: marker_eval l)
qed

lemma hack_end:
  assumes "map toLowerChar m = ''hack''"
  shows "rxm True markerAndDescription m cs = []"
    and "rxm True markerAndDescription (m @ '':'') cs = [([], (2, '':'') # (1, m) # cs)]"
proof -
  from assms obtain c1 c2 c3 c4 where m: "m = [c1, c2, c3, c4]"
    and l: "toLowerChar c1 = CHR ''h''" "toLowerChar c2 = CHR ''a''" "toLowerChar c3 = CHR ''c''" "toLowerChar c4 = CHR ''k''"
    by (auto simp: map_eq_Cons_conv)
  show "rxm True markerAndDescription m cs = []"
    unfolding m by (simp add: marker_eval l)
  show "rxm True markerAndDescription (m @ '':'') cs = [([], (2, '':'') # (1, m) # cs)]"
    unfolding m by (simp add: marker_eval l)
qed

lemma xxx_end:
  assumes "map toLowerChar m = ''xxx''"
  shows "rxm True markerAndDescription m cs = []"
    and "rxm True markerAndDescription (m @ '':'') cs = [([], (2, '':'') # (1, m) # cs)]"
proof -
  from assms obtain c1 c2 c3 where m: "m = [c1, c2, c3]"
    and l: "toLowerChar c1 = CHR ''x''" "toLowerChar c2 = CHR ''x''" "toLowerChar c3 = CHR ''x''"
    by (auto simp: map_eq_Cons_conv)
  show "rxm True markerAndDescription m cs = []"
    unfolding m by (simp add: marker_eval l)
  show "rxm True markerAndDescription (m @ '':'') cs = [([], (2, '':'') # (1, m) # cs)]"
    unfolding m by (simp add: marker_eval l)
qed

lemma note_end:
  assumes "map toLowerChar m = ''note''"
  shows "rxm True markerAndDescription m cs = []"
    and "rxm True markerAndDescription (m @ '':'') cs = [([], (2, '':'') # (1, m) # cs)]"
proof -
  from assms obtain c1 c2 c3 c4 where m: "m = [c1, c2, c3, c4]"
    and l: "toLowerChar c1 = CHR ''n''" "toLowerChar c2 = CHR ''o''" "toLowerChar c3 = CHR ''t''" "toLowerChar c4 = CHR ''e''"
    by (auto simp: map_eq_Cons_conv)
  show "rxm True markerAndDescription m cs = []"
    unfolding m by (simp add: marker_eval l)
  show "rxm True markerAndDescription (m @ '':'') cs = [([], (2, '':'') # (1, m) # cs)]"
    unfolding m by (simp add: marker_eval l)
qed

lemma optimize_end:
  assumes "map toLowerChar m = ''optimize''"
  shows "rxm True markerAndDescription m cs = []"
    and "rxm True markerAndDescription (m @ '':'') cs = [([], (2, '':'') # (1, m) # cs)]"
proof -
  from assms obtain c1 c2 c3 c4 c5 c6 c7 c8 where m: "m = [c1, c2, c3, c4, c5, c6, c7, c8]"
    and l: "toLowerChar c1 = CHR ''o''" "toLowerChar c2 = CHR ''p''" "toLowerChar c3 = CHR ''t''" "toLowerChar c4 = CHR ''i''" "toLowerChar c5 = CHR ''m''" "toLowerChar c6 = CHR ''i''" "toLowerChar c7 = CHR ''z''" "toLowerChar c8 = CHR ''e''"
    by (auto simp: map_eq_Cons_conv)
  show "rxm True markerAndDescription m cs = []"
    unfolding m by (simp add: marker_eval l)
  show "rxm True markerAndDescription (m @ '':'') cs = [([], (2, '':'') # (1, m) # cs)]"
    unfolding m by (simp add: marker_eval l)
qed

lemma refactor_end:
  assumes "map toLowerChar m = ''refactor''"
  shows "rxm True markerAndDescription m cs = []"
    and "rxm True markerAndDescription (m @ '':'') cs = [([], (2, '':'') # (1, m) # cs)]"
proof -
  from assms obtain c1 c2 c3 c4 c5 c6 c7 c8 where m: "m = [c1, c2, c3, c4, c5, c6, c7, c8]"
    and l: "toLowerChar c1 = CHR ''r''" "toLowerChar c2 = CHR ''e''" "toLowerChar c3 = CHR ''f''" "toLowerChar c4 = CHR ''a''" "toLowerChar c5 = CHR ''c''" "toLowerChar c6 = CHR ''t''" "toLowerChar c7 = CHR ''o''" "toLowerChar c8 = CHR ''r''"
    by (auto simp: map_eq_Cons_conv)
  show "rxm True markerAndDescription m cs = []"
    unfolding m by (simp add: marker_eval l)
  show "rxm True markerAndDescription (m @ '':'') cs = [([], (2, '':'') # (1, m) # cs)]"
    unfolding m by (simp add: marker_eval l)
qed

lemma marker_cases:
  assumes "toLowerCase m \<in> set (map toLowerCase markers)"
  obtains "map toLowerChar m = ''todo''" | "map toLowerChar m = ''fixme''"
    | "map toLowerChar m = ''hack''" | "map toLowerChar m = ''xxx''"
    | "map toLowerChar m = ''note''" | "map toLowerChar m = ''optimize''"
    | "map toLowerChar m = ''refactor''"
  using assms unfolding lower_markers by (auto simp: toLowerCase_def)

lemma marker_at_end:
  assumes "toLowerCase m \<in> set (map toLowerCase markers)"
  shows "rxm True markerAndDescription m cs = []"
    and "rxm True markerAndDescription (m @ '':'') cs = [([], (2, '':'') # (1, m) # cs)]"
proof -
  show "rxm True markerAndDescription m cs = []"
    using assms
    by (rule marker_cases)
      (rule todo_end fixme_end hack_end xxx_end note_end optimize_end refactor_end, assumption)+
  show "rxm True markerAndDescription (m @ '':'') cs = [([], (2, '':'') # (1, m) # cs)]"
    using assms
    by (rule marker_cases)
      (rule todo_end fixme_end hack_end xxx_end note_end optimize_end refactor_end, assumption)+
qed

lemma marker_chars:
  assumes "toLowerCase m \<in> set (map toLowerCase markers)"
  shows "m \<noteq> []" and "\<forall>c \<in> set m. toLowerChar c \<noteq> CHR ''/'' \<and> \<not> isSpace c"
proof -
  show "m \<noteq> []" using assms unfolding lower_markers by (auto simp: toLowerCase_def)
  have "\<forall>l \<in> set (map toLowerChar m). l \<in> set ''todfixmehacknpzr''"
    using assms unfolding lower_markers toLowerCase_def by (rule marker_cases [unfolded lower_markers toLowerCase_def]) simp_all
  then have letters: "\<forall>c \<in> set m. toLowerChar c \<in> set ''todfixmehacknpzr''" by simp
  show "\<forall>c \<in> set m. toLowerChar c \<noteq> CHR ''/'' \<and> \<not> isSpace c"
  proof
    fix c assume "c \<in> set m"
    with letters have l: "toLowerChar c \<in> set ''todfixmehacknpzr''" by blast
    then have "toLowerChar c \<noteq> CHR ''/''" by auto
    moreover have "\<not> isSpace c"
    proof
      assume sp: "isSpace c"
      then consider "c = CHR '' ''" | "c = CHR 0x09" | "c = CHR 0x0A" | "c = CHR 0x0B"
        | "c = CHR 0x0C" | "c = CHR 0x0D"
        by (auto simp: isSpace_def)
      then have "toLowerChar c = c \<and> c \<notin> set ''todfixmehacknpzr''"
        by cases (simp_all add: toLowerChar_def)
      with l show False by simp
    qed
    ultimately show "toLowerChar c \<noteq> CHR ''/'' \<and> \<not> isSpace c" by simp
  qed
qed

lemma search_bare_marker:
  assumes ws: "list_all isSpace ws"
    and m: "toLowerCase m \<in> set (map toLowerCase markers)"
  shows "regexSearch True todoPattern (''//'' @ ws @ m) = None"
proof -
  note mc = marker_chars [OF m]
  have nosp: "\<forall>c r. m = c # r \<longrightarrow> \<not> isSpace c"
    using mc(2) by auto
  have p0: "rxm True todoPattern (CHR ''/'' # CHR ''/'' # ws @ m) [] = []"
    using seq_star_space [OF ws nosp, of "[]"] marker_at_end(1) [OF m, of "[]"]
    by (simp only: two_slashes)
  have chars: "\<forall>c \<in> set (ws @ m). toLowerChar c \<noteq> CHR ''/''"
    using ws mc(2) isSpace_lower by (auto simp: list_all_iff)
  then have "\<forall>c r. ws @ m = c # r \<longrightarrow> toLowerChar c \<noteq> CHR ''/''"
    by (metis list.set_intros(1))
  then have p1: "rxm True todoPattern (CHR ''/'' # ws @ m) [] = []"
    by (rule one_slash)
  have rest: "regexSearch True todoPattern (ws @ m) = None"
    using chars by (rule no_slash)
  have "regexSearch True todoPattern (CHR ''/'' # ws @ m) = None"
    using p1 rest by (subst regexSearch.simps) (simp del: rxm.simps regexSearch.simps)
  with p0 show ?thesis
    by (subst regexSearch.simps) (simp del: rxm.simps regexSearch.simps)
qed

lemma search_marker_colon:
  assumes ws: "list_all isSpace ws"
    and m: "toLowerCase m \<in> set (map toLowerCase markers)"
  shows "regexSearch True todoPattern (''//'' @ ws @ m @ '':'') = Some [(2, '':''), (1, m)]"
proof -
  note mc = marker_chars [OF m]
  from mc(1) obtain c r where cr: "m = c # r" by (cases m) auto
  have nosp: "\<forall>c r. m @ '':'' = c # r \<longrightarrow> \<not> isSpace c"
    using mc(2) cr by auto
  have p0: "rxm True todoPattern (CHR ''/'' # CHR ''/'' # ws @ m @ '':'') []
      = [([], [(2, '':''), (1, m)])]"
    using seq_star_space [OF ws nosp, of "[]"] marker_at_end(2) [OF m, of "[]"]
    by (simp only: two_slashes)
  then show ?thesis
    by (subst regexSearch.simps) (simp del: rxm.simps regexSearch.simps)
qed

text \<open>
  C9, amended. Take a line made of \<^verbatim>\<open>//\<close>, any amount of whitespace and one of the seven
  markers in any letter case. If the line ends immediately after the marker, it produces no
  gap: the pattern needs at least one further character. If it ends with the colon after
  the marker, it produces one gap whose description is the colon, with priority high for
  FIXME and medium otherwise.
\<close>

theorem findTODOs_bare_marker:
  assumes "list_all isSpace ws"
    and "toLowerCase m \<in> set (map toLowerCase markers)"
  shows "findTODOs file [''//'' @ ws @ m] = []
     \<and> findTODOs file [''//'' @ ws @ m @ '':'']
         = [\<lparr> gap_type = Todo, gap_file = file, gap_line = Some 1, description = '':'',
              priority = Some (if toLowerCase m = ''fixme'' then High else Medium) \<rparr>]"
proof -
  have up: "toUpperCase m = ''FIXME'' \<longleftrightarrow> toLowerCase m = ''fixme''"
    using assms(2) toUpperCase_toLowerCase [of m] unfolding lower_markers
    by (auto simp: toUpperCase_def toUpperChar_def)
  have tr: "trim '':'' = '':''" by (simp add: trim_def isSpace_def)
  show ?thesis
    using search_bare_marker [OF assms] search_marker_colon [OF assms] up tr
    by (simp add: findTODOs_def enumerate_eq_zip groupText_def del: regexSearch.simps)
qed

theorem findTODOs_bare_marker_witness:
  "findTODOs ''a.ts'' [''// TODO''] = []
   \<and> findTODOs ''a.ts'' [''// TODO:'']
       = [\<lparr> gap_type = Todo, gap_file = ''a.ts'', gap_line = Some 1, description = '':'',
            priority = Some Medium \<rparr>]
   \<and> findTODOs ''b.ts'' [''//fixme''] = []
   \<and> findTODOs ''b.ts'' [''//fixme:'']
       = [\<lparr> gap_type = Todo, gap_file = ''b.ts'', gap_line = Some 1, description = '':'',
            priority = Some High \<rparr>]"
proof -
  have a: "list_all isSpace '' ''" "list_all isSpace []"
    by (simp_all add: isSpace_def)
  have b: "toLowerCase ''TODO'' \<in> set (map toLowerCase markers)"
    "toLowerCase ''fixme'' \<in> set (map toLowerCase markers)"
    "toLowerCase ''TODO'' \<noteq> ''fixme''" "toLowerCase ''fixme'' = ''fixme''"
    by (simp_all add: markers_def toLowerCase_def toLowerChar_def)
  from findTODOs_bare_marker [OF a(1) b(1), of "''a.ts''"]
    findTODOs_bare_marker [OF a(2) b(2), of "''b.ts''"] b(3,4)
  show ?thesis by simp
qed

section \<open>Quality analyzer: the coverage estimate\<close>

text \<open>
  \<open>fl\<close> is rounding to nearest of IEEE 754: \<open>binade\<close> finds the binade
  (\<open>binade_bounds\<close>), the result is a 53-bit multiple of the unit in the last place
  (\<open>fl_grid\<close>), no other multiple is nearer (\<open>fl_nearest\<close>), and the relative error is
  at most \<open>2^-53\<close> (\<open>fl_relative_error\<close>).
\<close>

lemma pow2_powi: "pow2 e = 2 powi e"
  by (simp add: pow2_def power_int_def power_inverse field_simps)

lemma bitLength_bounds:
  "0 < n \<Longrightarrow> 2 ^ (bitLength n - 1) \<le> n \<and> n < 2 ^ bitLength n"
proof (induction n rule: bitLength.induct)
  case (1 n)
  show ?case
  proof (cases "n div 2 \<le> 0")
    case True
    with "1.prems" have "n = 1" by linarith
    then show ?thesis by (simp add: bitLength.simps [of 1] bitLength.simps [of 0])
  next
    case False
    then have pos: "0 < n div 2" by simp
    with "1.prems" "1.IH" have ih: "2 ^ (bitLength (n div 2) - 1) \<le> n div 2"
        "n div 2 < 2 ^ bitLength (n div 2)"
      by auto
    have bl: "bitLength n = Suc (bitLength (n div 2))"
      using "1.prems" by (subst bitLength.simps) simp
    have blpos: "0 < bitLength (n div 2)"
      using pos by (subst bitLength.simps) simp
    then obtain k where k: "bitLength (n div 2) = Suc k" by (cases "bitLength (n div 2)") auto
    have "2 * (n div 2) \<le> n" "n < 2 * (n div 2) + 2" by linarith+
    with ih k bl show ?thesis by auto
  qed
qed

lemma binade_bounds:
  assumes "0 < q"
  shows "pow2 (binade q) \<le> q \<and> q < pow2 (binade q + 1)"
proof -
  obtain a b where ab: "quotient_of q = (a, b)" by (cases "quotient_of q")
  then have b: "0 < b" and q: "q = of_int a / of_int b"
    using quotient_of_denom_pos quotient_of_div by auto
  with assms have a: "0 < a" by (simp add: zero_less_divide_iff)
  define la lb where "la = bitLength a" and "lb = bitLength b"
  have la: "2 ^ (la - 1) \<le> a" "a < 2 ^ la" and lb: "2 ^ (lb - 1) \<le> b" "b < 2 ^ lb"
    using bitLength_bounds [OF a] bitLength_bounds [OF b] by (simp_all add: la_def lb_def)
  have lapos: "0 < la" "0 < lb"
    using a b by (simp_all add: la_def lb_def bitLength.simps [of a] bitLength.simps [of b])
  obtain ka kb where k: "la = Suc ka" "lb = Suc kb"
    using lapos by (cases la; cases lb) auto
  have ra: "(2::rat) powi (int la - 1) \<le> of_int a" "(of_int a :: rat) < 2 powi int la"
  proof -
    have "(of_int (2 ^ ka) :: rat) \<le> of_int a" using la(1) k by (simp only: of_int_le_iff) simp
    then show "(2::rat) powi (int la - 1) \<le> of_int a" using k by simp
    have "(of_int a :: rat) < of_int (2 ^ la)" using la(2) by (simp only: of_int_less_iff)
    then show "(of_int a :: rat) < 2 powi int la" by simp
  qed
  have rb: "(2::rat) powi (int lb - 1) \<le> of_int b" "(of_int b :: rat) < 2 powi int lb"
  proof -
    have "(of_int (2 ^ kb) :: rat) \<le> of_int b" using lb(1) k by (simp only: of_int_le_iff) simp
    then show "(2::rat) powi (int lb - 1) \<le> of_int b" using k by simp
    have "(of_int b :: rat) < of_int (2 ^ lb)" using lb(2) by (simp only: of_int_less_iff)
    then show "(of_int b :: rat) < 2 powi int lb" by simp
  qed
  have bpos: "(0::rat) < of_int b" using b by simp
  have upper: "q < (2::rat) powi (int la - int lb + 1)"
  proof -
    have "q * of_int b = of_int a" using q bpos by simp
    also have "\<dots> < 2 powi int la" by (rule ra(2))
    also have "\<dots> = 2 powi (int la - int lb + 1) * 2 powi (int lb - 1)"
      using power_int_add [of "2::rat" "int la - int lb + 1" "int lb - 1"] by simp
    also have "\<dots> \<le> 2 powi (int la - int lb + 1) * of_int b"
      using rb(1) by (intro mult_left_mono) simp_all
    finally show ?thesis using bpos by simp
  qed
  have lower: "(2::rat) powi (int la - int lb - 1) < q"
  proof -
    have "(2::rat) powi (int la - int lb - 1) * of_int b < 2 powi (int la - int lb - 1) * 2 powi int lb"
      using rb(2) by (intro mult_strict_left_mono) simp_all
    also have "\<dots> = 2 powi (int la - 1)"
      using power_int_add [of "2::rat" "int la - int lb - 1" "int lb"] by simp
    also have "\<dots> \<le> of_int a" by (rule ra(1))
    also have "\<dots> = q * of_int b" using q bpos by simp
    finally show ?thesis using bpos by simp
  qed
  have bin: "binade q = (if 2 powi (int la - int lb) \<le> q then int la - int lb else int la - int lb - 1)"
    using ab by (simp add: binade_def la_def lb_def pow2_powi)
  show ?thesis
  proof (cases "2 powi (int la - int lb) \<le> q")
    case True
    with bin upper show ?thesis by (simp add: pow2_powi)
  next
    case False
    with bin lower show ?thesis by (simp add: pow2_powi)
  qed
qed

lemma roundHalfEven_error: "\<bar>of_int (roundHalfEven x) - x\<bar> \<le> 1 / 2"
proof -
  have "of_int \<lfloor>x\<rfloor> \<le> x" "x < of_int \<lfloor>x\<rfloor> + 1" by linarith+
  then show ?thesis
    by (auto simp: roundHalfEven_def Let_def abs_le_iff)
qed

lemma roundHalfEven_nearest: "\<bar>of_int (roundHalfEven x) - x\<bar> \<le> \<bar>of_int m - x\<bar>"
proof (cases "m = roundHalfEven x")
  case True
  then show ?thesis by simp
next
  case False
  then have "1 \<le> \<bar>m - roundHalfEven x\<bar>" by linarith
  then have "(1::rat) \<le> \<bar>of_int m - of_int (roundHalfEven x)\<bar>"
    by (metis of_int_1 of_int_abs of_int_diff of_int_le_iff)
  with roundHalfEven_error [of x] show ?thesis by linarith
qed

lemma roundHalfEven_of_int: "roundHalfEven (of_int m) = m"
  by (simp add: roundHalfEven_def)

lemma roundHalfEven_mono: "x \<le> y \<Longrightarrow> roundHalfEven x \<le> roundHalfEven y"
proof -
  assume xy: "x \<le> y"
  show ?thesis
  proof (rule ccontr)
    assume "\<not> roundHalfEven x \<le> roundHalfEven y"
    then have gt: "roundHalfEven y + 1 \<le> roundHalfEven x" by linarith
    then have "(of_int (roundHalfEven y) :: rat) + 1 \<le> of_int (roundHalfEven x)"
      by (metis of_int_1 of_int_add of_int_le_iff)
    with roundHalfEven_error [of x] roundHalfEven_error [of y] xy
    have eqs: "of_int (roundHalfEven x) = x + 1 / 2" "of_int (roundHalfEven y) = y - 1 / 2" "x = y"
      by linarith+
    then have "roundHalfEven x = roundHalfEven y" by simp
    with gt show False by simp
  qed
qed

text \<open>fl rounds to the nearest multiple of the unit in the last place of the binade.\<close>

lemma fl_grid:
  assumes "0 < q"
  shows "fl q = of_int (roundHalfEven (q / pow2 (binade q - 52))) * pow2 (binade q - 52)"
    and "2 ^ 52 \<le> roundHalfEven (q / pow2 (binade q - 52))"
    and "roundHalfEven (q / pow2 (binade q - 52)) \<le> 2 ^ 53"
proof -
  define u where "u = pow2 (binade q - 52)"
  have upos: "0 < u" by (simp add: u_def pow2_powi)
  show "fl q = of_int (roundHalfEven (q / pow2 (binade q - 52))) * pow2 (binade q - 52)"
    using assms by (simp add: fl_def Let_def)
  have e: "pow2 (binade q) = 2 ^ 52 * u" "pow2 (binade q + 1) = 2 ^ 53 * u"
    using power_int_add [of "2::rat" "binade q - 52" 52]
      power_int_add [of "2::rat" "binade q - 52" 53]
    by (simp_all add: u_def pow2_powi ac_simps)
  from binade_bounds [OF assms] e have "2 ^ 52 * u \<le> q" "q < 2 ^ 53 * u" by simp_all
  with upos have lo: "of_int (2 ^ 52) \<le> q / u" and hi: "q / u \<le> of_int (2 ^ 53)"
    by (simp_all add: pos_le_divide_eq pos_divide_le_eq)
  from roundHalfEven_mono [OF lo] roundHalfEven_mono [OF hi]
  show "2 ^ 52 \<le> roundHalfEven (q / pow2 (binade q - 52))"
    and "roundHalfEven (q / pow2 (binade q - 52)) \<le> 2 ^ 53"
    by (simp_all only: roundHalfEven_of_int u_def)
qed

lemma fl_nearest:
  assumes "0 < q"
  shows "\<bar>fl q - q\<bar> \<le> \<bar>of_int m * pow2 (binade q - 52) - q\<bar>"
proof -
  define u where "u = pow2 (binade q - 52)"
  have upos: "0 < u" by (simp add: u_def pow2_powi)
  have "\<bar>of_int (roundHalfEven (q / u)) - q / u\<bar> \<le> \<bar>of_int m - q / u\<bar>"
    by (rule roundHalfEven_nearest)
  then have "\<bar>of_int (roundHalfEven (q / u)) - q / u\<bar> * u \<le> \<bar>of_int m - q / u\<bar> * u"
    using upos by (simp add: mult_right_mono)
  moreover have "\<bar>of_int k - q / u\<bar> * u = \<bar>of_int k * u - q\<bar>" for k :: int
  proof -
    have "\<bar>of_int k - q / u\<bar> * u = \<bar>(of_int k - q / u) * u\<bar>"
      using upos by (simp add: abs_mult)
    also have "(of_int k - q / u) * u = of_int k * u - q"
      using upos by (simp add: field_simps)
    finally show ?thesis .
  qed
  ultimately show ?thesis
    using fl_grid(1) [OF assms] by (simp add: u_def)
qed

lemma fl_relative_error:
  assumes "0 \<le> q"
  shows "\<bar>fl q - q\<bar> \<le> q / 2 ^ 53"
proof (cases "q = 0")
  case True
  then show ?thesis by (simp add: fl_def)
next
  case False
  with assms have pos: "0 < q" by simp
  define u where "u = pow2 (binade q - 52)"
  have upos: "0 < u" by (simp add: u_def pow2_powi)
  have "\<bar>of_int (roundHalfEven (q / u)) - q / u\<bar> * u \<le> 1 / 2 * u"
    using upos roundHalfEven_error [of "q / u"] by (intro mult_right_mono) simp_all
  moreover have "\<bar>of_int (roundHalfEven (q / u)) - q / u\<bar> * u = \<bar>fl q - q\<bar>"
  proof -
    have "\<bar>of_int (roundHalfEven (q / u)) - q / u\<bar> * u
        = \<bar>(of_int (roundHalfEven (q / u)) - q / u) * u\<bar>"
      using upos by (simp add: abs_mult)
    also have "(of_int (roundHalfEven (q / u)) - q / u) * u = fl q - q"
      using upos fl_grid(1) [OF pos] by (simp add: field_simps u_def)
    finally show ?thesis .
  qed
  moreover have "2 ^ 52 * u \<le> q"
    using binade_bounds [OF pos] power_int_add [of "2::rat" "binade q - 52" 52]
    by (simp add: u_def pow2_powi)
  ultimately show ?thesis by (simp add: field_simps)
qed

lemma pow2_pos: "0 < pow2 e"
  by (simp add: pow2_def)

lemma roundHalfEven_nonneg: "0 \<le> x \<Longrightarrow> 0 \<le> roundHalfEven x"
  by (auto simp: roundHalfEven_def Let_def)

lemma fl_nonneg: "0 \<le> q \<Longrightarrow> 0 \<le> fl q"
  using pow2_pos [of "binade \<bar>q\<bar> - 52"]
  by (auto simp: fl_def Let_def intro!: mult_nonneg_nonneg roundHalfEven_nonneg)

lemma product_error:
  fixes r :: rat
  assumes "0 \<le> r"
  shows "\<bar>fl (fl r * 100) - 100 * r\<bar> \<le> 100 * r * 3 / 2 ^ 53"
proof -
  define e where "e = r / 2 ^ 53"
  define X1 where "X1 = fl r"
  define X2 where "X2 = fl (X1 * 100)"
  have epos: "0 \<le> e" using assms by (simp add: e_def)
  have x1: "0 \<le> X1" unfolding X1_def by (rule fl_nonneg [OF assms])
  have e1: "\<bar>X1 - r\<bar> \<le> e" unfolding X1_def e_def by (rule fl_relative_error [OF assms])
  have "0 \<le> X1 * 100" using x1 by simp
  from fl_relative_error [OF this]
  have e2: "\<bar>X2 - X1 * 100\<bar> \<le> X1 * 100 / 2 ^ 53" unfolding X2_def .
  have "e \<le> r" using assms by (simp add: e_def field_simps)
  with e1 have "X1 \<le> 2 * r" by linarith
  then have "X1 * 100 / 2 ^ 53 \<le> 2 * r * 100 / 2 ^ 53"
    by (simp add: divide_right_mono)
  also have "\<dots> = 200 * e" by (simp add: e_def)
  finally have b2: "\<bar>X2 - X1 * 100\<bar> \<le> 200 * e" using e2 by linarith
  from e1 b2 have "\<bar>X2 - 100 * r\<bar> \<le> 300 * e" by linarith
  then show ?thesis by (simp add: X2_def X1_def e_def)
qed

lemma half_integer_gap:
  fixes y :: rat and n :: int and s t :: nat
  assumes s: "0 < s" and y: "y = 100 * of_nat t / of_nat s"
  shows "of_int n < 2 * y \<Longrightarrow> of_int n + 1 / of_nat s \<le> 2 * y"
    and "2 * y < of_int n \<Longrightarrow> 2 * y + 1 / of_nat s \<le> of_int n"
proof -
  have spos: "(0::rat) < of_nat s" using s by simp
  have eq: "2 * y * of_nat s = of_int (200 * int t)"
    using spos by (simp add: y)
  {
    assume "of_int n < 2 * y"
    then have "of_int n * of_nat s < 2 * y * (of_nat s :: rat)"
      using spos by (simp add: mult_strict_right_mono)
    then have "(of_int (n * int s) :: rat) < of_int (200 * int t)"
      using eq by simp
    then have "n * int s < 200 * int t" by (simp only: of_int_less_iff)
    then have "n * int s + 1 \<le> 200 * int t" by linarith
    then have "(of_int (n * int s + 1) :: rat) \<le> of_int (200 * int t)"
      by (simp only: of_int_le_iff)
    then have "of_int n * of_nat s + 1 \<le> 2 * y * (of_nat s :: rat)"
      using eq by simp
    then show "of_int n + 1 / of_nat s \<le> 2 * y"
      using spos by (simp add: field_simps)
  }
  {
    assume "2 * y < of_int n"
    then have "2 * y * (of_nat s :: rat) < of_int n * of_nat s"
      using spos by (simp add: mult_strict_right_mono)
    then have "(of_int (200 * int t) :: rat) < of_int (n * int s)"
      using eq by simp
    then have "200 * int t < n * int s" by (simp only: of_int_less_iff)
    then have "200 * int t + 1 \<le> n * int s" by linarith
    then have "(of_int (200 * int t + 1) :: rat) \<le> of_int (n * int s)"
      by (simp only: of_int_le_iff)
    then have "2 * y * (of_nat s :: rat) + 1 \<le> of_int n * of_nat s"
      using eq by simp
    then show "2 * y + 1 / of_nat s \<le> of_int n"
      using spos by (simp add: field_simps)
  }
qed

lemma testCoverageEstimate_range:
  "0 \<le> testCoverageEstimate t s \<and> testCoverageEstimate t s \<le> 100"
proof -
  have "0 \<le> fl (fl (of_nat t / of_nat (max s 1)) * 100)"
    by (intro fl_nonneg mult_nonneg_nonneg) simp_all
  then have "0 \<le> Math_round (fl (fl (of_nat t / of_nat (max s 1)) * 100))"
    by (simp add: Math_round_def)
  then show ?thesis by (simp add: testCoverageEstimate_def)
qed

lemma estimate_and_formula:
  assumes bound: "s < 2 ^ 32"
  shows "coverageFormula t s - 1 \<le> testCoverageEstimate t s
       \<and> testCoverageEstimate t s \<le> coverageFormula t s
       \<and> (frac (100 * of_nat t / of_nat (max 1 s) :: rat) \<noteq> 1 / 2
            \<longrightarrow> testCoverageEstimate t s = coverageFormula t s)"
proof -
  define s' where "s' = max s 1"
  define r :: rat where "r = of_nat t / of_nat s'"
  define y :: rat where "y = 100 * r"
  define X where "X = fl (fl r * 100)"
  define n where "n = \<lfloor>y + 1 / 2\<rfloor>"
  define k where "k = \<lfloor>X + 1 / 2\<rfloor>"
  have s'pos: "0 < s'" and s'lt: "s' < 2 ^ 32"
    using bound by (simp_all add: s'_def)
  have rpos: "0 \<le> r" by (simp add: r_def)
  have ypos: "0 \<le> y" using rpos by (simp add: y_def)
  have est: "testCoverageEstimate t s = min k 100"
    by (simp add: testCoverageEstimate_def Math_round_def k_def X_def r_def s'_def)
  have max_eq: "max 1 s = s'" by (simp add: s'_def max.commute)
  have yeq: "y = 100 * of_nat t / of_nat s'" by (simp add: y_def r_def)
  have form: "coverageFormula t s = min 100 n"
    unfolding coverageFormula_def max_eq by (simp add: round_def n_def yeq)
  have tie_eq: "frac (100 * of_nat t / of_nat (max 1 s) :: rat) = frac y"
    unfolding max_eq by (simp add: yeq)
  have err: "\<bar>X - y\<bar> \<le> y * 3 / 2 ^ 53"
    using product_error [OF rpos] by (simp add: X_def y_def)
  have n1: "of_int n \<le> y + 1 / 2" and n2: "y + 1 / 2 < of_int n + 1"
    unfolding n_def by linarith+
  show ?thesis
  proof (cases "101 \<le> y")
    case True
    have "y * 3 / 2 ^ 53 \<le> y / 1000" using ypos by (simp add: field_simps)
    with err True have "101 \<le> X + 1 / 2" by linarith
    then have "101 \<le> k" unfolding k_def by (simp add: le_floor_iff)
    moreover have "101 \<le> n" unfolding n_def using True by (simp add: le_floor_iff)
    ultimately show ?thesis using est form by simp
  next
    case False
    define c :: rat where "c = 1 / 2 ^ 34"
    have c: "0 < c" "c < 1 / 2" by (simp_all add: c_def)
    from False have "y * 3 / 2 ^ 53 \<le> 101 * 3 / 2 ^ 53" by (simp add: field_simps)
    also have "\<dots> < c" by (simp add: c_def)
    finally have "\<bar>X - y\<bar> < c" using err by linarith
    then have d: "X - y < c" "y - X < c" by linarith+
    have k1: "n - 1 \<le> k"
    proof -
      have "of_int n - 1 \<le> X + 1 / 2" using d c n1 n2 by linarith
      then have "of_int (n - 1) \<le> X + 1 / 2" by simp
      then show ?thesis unfolding k_def by (simp only: le_floor_iff)
    qed
    have gap: "4 * c < 1 / (of_nat s' :: rat)"
    proof -
      have "(of_nat s' :: rat) < of_nat (2 ^ 32)" using s'lt by (simp only: of_nat_less_iff)
      then show ?thesis using s'pos by (simp add: field_simps c_def)
    qed
    have "2 * y + 1 / of_nat s' \<le> of_int (2 * n + 1)"
    proof (rule half_integer_gap(2) [OF s'pos yeq])
      show "2 * y < of_int (2 * n + 1)" using n2 by simp
    qed
    then have hi: "2 * y + 1 / of_nat s' \<le> of_int n * 2 + 1" by simp
    have k2: "k \<le> n"
    proof -
      have "X + 1 / 2 < of_int n + 1" using d c hi gap by linarith
      then have "X + 1 / 2 < of_int (n + 1)" by simp
      then have "k < n + 1" unfolding k_def by (simp only: floor_less_iff)
      then show ?thesis by simp
    qed
    have bounds: "coverageFormula t s - 1 \<le> testCoverageEstimate t s
       \<and> testCoverageEstimate t s \<le> coverageFormula t s"
      using k1 k2 est form by auto
    have exact: "testCoverageEstimate t s = coverageFormula t s" if notie: "frac y \<noteq> 1 / 2"
    proof -
      have ne: "2 * y \<noteq> of_int n * 2 - 1"
      proof
        assume "2 * y = of_int n * 2 - 1"
        then have yv: "y = of_int (n - 1) + 1 / 2" by simp
        then have "\<lfloor>y\<rfloor> = n - 1" by (intro floor_unique) simp_all
        with yv have "frac y = 1 / 2" by (simp add: frac_def)
        with notie show False by simp
      qed
      have "of_int (2 * n - 1) + 1 / of_nat s' \<le> 2 * y"
      proof (rule half_integer_gap(1) [OF s'pos yeq])
        show "of_int (2 * n - 1) < 2 * y" using n1 ne by simp
      qed
      then have lo: "of_int n * 2 - 1 + 1 / of_nat s' \<le> 2 * y" by simp
      have "of_int n \<le> X + 1 / 2" "X + 1 / 2 < of_int n + 1"
        using lo hi gap d c by linarith+
      then have "k = n" unfolding k_def by (intro floor_unique)
      with est form show ?thesis by (simp add: min.commute)
    qed
    from bounds exact tie_eq show ?thesis by simp
  qed
qed

text \<open>
  C7, as stated, fails. With 23 test files among 40 code files the exact percentage is 57.5
  and the formula \<open>min(100, round(100 \<times> 23 / 40))\<close> gives 58. The code divides first:
  \<open>23 / 40\<close> is no double, the nearest double is \<open>2589569785738035 / 2^52\<close>, just below
  0.575; its product with 100, rounded to a double, is \<open>8092405580431359 / 2^47\<close>, printed
  57.49999999999999, and \<^verbatim>\<open>Math.round\<close> returns 57.
\<close>

theorem testCoverage_half_way_rounds_down:
  "fl (23 / 40) = 2589569785738035 / 2 ^ 52
   \<and> fl (fl (23 / 40) * 100) = 8092405580431359 / 2 ^ 47
   \<and> length (testFiles sampleGlob) = 23 \<and> length (codeFiles sampleGlob) = 40
   \<and> testCoverage (calculateMetrics (Some sampleGlob)) = 57
   \<and> coverageFormula 23 40 = 58"
proof -
  have a: "fl (23 / 40) = 2589569785738035 / 2 ^ 52"
    by code_simp
  have b: "fl (fl (23 / 40) * 100) = 8092405580431359 / 2 ^ 47"
    by code_simp
  have c: "testCoverage (calculateMetrics (Some sampleGlob)) = 57"
    by code_simp
  have d: "coverageFormula 23 40 = 58"
    by code_simp
  have e: "length (testFiles sampleGlob) = 23 \<and> length (codeFiles sampleGlob) = 40"
    by (simp add: sampleGlob_def)
  from a b c d e show ?thesis by blast
qed

lemma countLines_None:
  "countLines files loc = None \<longleftrightarrow> None \<in> snd ` set files"
  by (induction files loc rule: countLines.induct) auto

lemma calculateMetrics_catch:
  "None \<in> snd ` set (codeFiles g) \<Longrightarrow> calculateMetrics (Some g) = defaultMetrics"
proof -
  assume "None \<in> snd ` set (codeFiles g)"
  then have "countLines (codeFiles g) 0 = None"
    by (simp only: countLines_None)
  then show ?thesis by (simp add: calculateMetrics_def)
qed

lemma calculateMetrics_success:
  "None \<notin> snd ` set (codeFiles g) \<Longrightarrow>
   testCoverage (calculateMetrics (Some g))
     = testCoverageEstimate (length (testFiles g)) (length (codeFiles g))"
proof -
  assume "None \<notin> snd ` set (codeFiles g)"
  then obtain loc where "countLines (codeFiles g) 0 = Some loc"
    using countLines_None [of "codeFiles g" 0] by (cases "countLines (codeFiles g) 0") auto
  then show ?thesis by (simp add: calculateMetrics_def)
qed

text \<open>
  C7, amended. When the globs and every file read succeed, the estimate is
  \<^verbatim>\<open>Math.min(Math.round(d), 100)\<close> for the double \<open>d\<close> that the division and the
  multiplication produce: for a code-file count that is an array length (below \<open>2^32\<close>) it
  equals \<open>min(100, round(100 \<times> testFileCount / max(1, sourceFileCount)))\<close> whenever that
  exact percentage is not half-way between two integers, and at a half-way percentage it
  is the formula's value or one less. When a glob or a file read fails, the \<^verbatim>\<open>catch\<close>
  block returns 0 whatever the counts are. In every case the estimate lies in the integer
  range 0 to 100.
\<close>

theorem testCoverage_estimate:
  "0 \<le> testCoverage (calculateMetrics io) \<and> testCoverage (calculateMetrics io) \<le> 100
   \<and> (io = None \<longrightarrow> testCoverage (calculateMetrics io) = 0)
   \<and> (\<forall>g. io = Some g \<and> None \<in> snd ` set (codeFiles g) \<longrightarrow>
         testCoverage (calculateMetrics io) = 0)
   \<and> (\<forall>g. io = Some g \<and> None \<notin> snd ` set (codeFiles g) \<and> length (codeFiles g) < 2 ^ 32 \<longrightarrow>
         coverageFormula (length (testFiles g)) (length (codeFiles g)) - 1
           \<le> testCoverage (calculateMetrics io)
         \<and> testCoverage (calculateMetrics io)
           \<le> coverageFormula (length (testFiles g)) (length (codeFiles g))
         \<and> (frac (100 * of_nat (length (testFiles g))
                    / of_nat (max 1 (length (codeFiles g))) :: rat) \<noteq> 1 / 2
              \<longrightarrow> testCoverage (calculateMetrics io)
                    = coverageFormula (length (testFiles g)) (length (codeFiles g))))"
proof -
  have none: "testCoverage (calculateMetrics None) = 0"
    by (simp add: calculateMetrics_def defaultMetrics_def)
  have catch: "testCoverage (calculateMetrics (Some g)) = 0"
    if "None \<in> snd ` set (codeFiles g)" for g
    using calculateMetrics_catch [OF that] by (simp add: defaultMetrics_def)
  have range: "0 \<le> testCoverage (calculateMetrics io) \<and> testCoverage (calculateMetrics io) \<le> 100"
  proof (cases io)
    case None
    with none show ?thesis by simp
  next
    case (Some g)
    show ?thesis
    proof (cases "None \<in> snd ` set (codeFiles g)")
      case True
      with catch Some show ?thesis by simp
    next
      case False
      with calculateMetrics_success Some testCoverageEstimate_range show ?thesis by simp
    qed
  qed
  have formula: "coverageFormula (length (testFiles g)) (length (codeFiles g)) - 1
           \<le> testCoverage (calculateMetrics (Some g))
         \<and> testCoverage (calculateMetrics (Some g))
           \<le> coverageFormula (length (testFiles g)) (length (codeFiles g))
         \<and> (frac (100 * of_nat (length (testFiles g))
                    / of_nat (max 1 (length (codeFiles g))) :: rat) \<noteq> 1 / 2
              \<longrightarrow> testCoverage (calculateMetrics (Some g))
                    = coverageFormula (length (testFiles g)) (length (codeFiles g)))"
    if "None \<notin> snd ` set (codeFiles g)" and "length (codeFiles g) < 2 ^ 32" for g
    using estimate_and_formula [OF that(2)] calculateMetrics_success [OF that(1)] by simp
  from range none catch formula show ?thesis by blast
qed

theorem testCoverage_estimate_witness:
  "length (codeFiles sampleGlob) < 2 ^ 32 \<and> None \<notin> snd ` set (codeFiles sampleGlob)
   \<and> testCoverage (calculateMetrics (Some sampleGlob)) \<le> 58
   \<and> 57 \<le> testCoverage (calculateMetrics (Some sampleGlob))
   \<and> None \<notin> snd ` set (codeFiles sampleThirds)
   \<and> frac (100 * of_nat (length (testFiles sampleThirds))
            / of_nat (max 1 (length (codeFiles sampleThirds))) :: rat) \<noteq> 1 / 2
   \<and> testCoverage (calculateMetrics (Some sampleThirds)) = 33
   \<and> None \<in> snd ` set (codeFiles sampleUnreadable)
   \<and> testCoverage (calculateMetrics (Some sampleUnreadable)) = 0
   \<and> coverageFormula (length (testFiles sampleUnreadable))
        (length (codeFiles sampleUnreadable)) = 33
   \<and> testCoverage (calculateMetrics None) = 0"
proof -
  have len: "length (codeFiles sampleGlob) < 2 ^ 32" "length (codeFiles sampleThirds) < 2 ^ 32"
    by (simp_all add: sampleGlob_def sampleThirds_def)
  have readable: "None \<notin> snd ` set (codeFiles sampleGlob)"
    "None \<notin> snd ` set (codeFiles sampleThirds)"
    by (auto simp: sampleGlob_def sampleThirds_def)
  have unreadable: "None \<in> snd ` set (codeFiles sampleUnreadable)"
    by (simp add: sampleUnreadable_def)
  have f1: "coverageFormula (length (testFiles sampleGlob)) (length (codeFiles sampleGlob)) = 58"
    by code_simp
  have f2: "coverageFormula (length (testFiles sampleThirds)) (length (codeFiles sampleThirds)) = 33"
    by code_simp
  have f3: "coverageFormula (length (testFiles sampleUnreadable))
        (length (codeFiles sampleUnreadable)) = 33"
    by code_simp
  have notie: "frac (100 * of_nat (length (testFiles sampleThirds))
            / of_nat (max 1 (length (codeFiles sampleThirds))) :: rat) \<noteq> 1 / 2"
    by code_simp
  from testCoverage_estimate [of "Some sampleGlob"] len(1) readable(1) f1
  have a: "testCoverage (calculateMetrics (Some sampleGlob)) \<le> 58
      \<and> 57 \<le> testCoverage (calculateMetrics (Some sampleGlob))"
    by simp
  from testCoverage_estimate [of "Some sampleThirds"] len(2) readable(2) f2 notie
  have b: "testCoverage (calculateMetrics (Some sampleThirds)) = 33"
    by simp
  from testCoverage_estimate [of "Some sampleUnreadable"] unreadable
  have c: "testCoverage (calculateMetrics (Some sampleUnreadable)) = 0"
    by simp
  from testCoverage_estimate [of None]
  have d: "testCoverage (calculateMetrics None) = 0"
    by simp
  from len(1) readable a notie b unreadable c f3 d show ?thesis by blast
qed

section \<open>Deduplication of features and recommendations\<close>

lemma dedupFilter_keys:
  "distinct (map (\<lambda>f. lowerCase (name f)) (dedupFilter lowerCase seen fs))
   \<and> lowerCase ` name ` set (dedupFilter lowerCase seen fs) \<inter> seen = {}"
proof (induction fs arbitrary: seen)
  case Nil
  show ?case by simp
next
  case (Cons f fs)
  show ?case
  proof (cases "lowerCase (name f) \<in> seen")
    case True
    with Cons.IH [of seen] show ?thesis by simp
  next
    case False
    with Cons.IH [of "insert (lowerCase (name f)) seen"] show ?thesis
      by (auto simp: Let_def)
  qed
qed

lemma dedupFilter_first:
  "k \<notin> seen \<Longrightarrow>
   find (\<lambda>g. lowerCase (name g) = k) (dedupFilter lowerCase seen fs)
     = find (\<lambda>g. lowerCase (name g) = k) fs"
proof (induction fs arbitrary: seen)
  case Nil
  show ?case by simp
next
  case (Cons f fs)
  show ?case
  proof (cases "lowerCase (name f) \<in> seen")
    case True
    with Cons.prems have "lowerCase (name f) \<noteq> k" by auto
    with True Cons.IH [OF Cons.prems] show ?thesis by simp
  next
    case False
    show ?thesis
    proof (cases "lowerCase (name f) = k")
      case True
      with False show ?thesis by (simp add: Let_def)
    next
      case neq: False
      with Cons.prems have "k \<notin> insert (lowerCase (name f)) seen" by simp
      from Cons.IH [OF this] False neq show ?thesis by (simp add: Let_def)
    qed
  qed
qed

lemma dedupFilter_subseq: "subseq (dedupFilter lowerCase seen fs) fs"
  by (induction fs arbitrary: seen) (auto simp: Let_def)

lemma indexOf_distinct_nth:
  "distinct xs \<Longrightarrow> i < length xs \<Longrightarrow> indexOf xs (xs ! i) = int i"
proof (induction xs arbitrary: i)
  case Nil
  then show ?case by simp
next
  case (Cons x xs)
  show ?case
  proof (cases i)
    case 0
    then show ?thesis by simp
  next
    case (Suc j)
    with Cons.prems have j: "j < length xs" and d: "distinct xs" and "xs ! j \<noteq> x"
      by auto
    with Cons.IH [OF d j] Suc show ?thesis by (simp add: Let_def)
  qed
qed

lemma filterFirstIndex_distinct: "distinct xs \<Longrightarrow> filterFirstIndex xs = xs"
proof -
  assume d: "distinct xs"
  have "\<forall>p \<in> set (enumerate 0 xs). (\<lambda>(index, imp). indexOf xs imp = int index) p"
    using indexOf_distinct_nth [OF d] by (auto simp: in_set_enumerate_eq)
  then have "filter (\<lambda>(index, imp). indexOf xs imp = int index) (enumerate 0 xs) = enumerate 0 xs"
    by (simp only: filter_True)
  then show ?thesis by (simp add: filterFirstIndex_def)
qed

lemma filterFirstIndex_subseq: "subseq (filterFirstIndex xs) xs"
proof -
  have "subseq (map snd (filter (\<lambda>(index, imp). indexOf xs imp = int index) (enumerate 0 xs)))
          (map snd (enumerate 0 xs))"
    by (rule subseq_map) (rule subseq_filter_left)
  then show ?thesis by (simp add: filterFirstIndex_def)
qed

lemma pushIf_append: "pushIf b s xs = xs @ (if b then [s] else [])"
  by (simp add: pushIf_def)

lemma testRule_append:
  "testRule qa xs = xs @
     (if \<not> hasTests qa then
        [''add-test-coverage: Add unit and integration tests'']
      else if (case metrics qa of None \<Rightarrow> False | Some m \<Rightarrow> testCoverage m < 60) then
        [''improve-test-coverage: Increase test coverage to at least 80%'']
      else [])"
  by (simp add: testRule_def)

lemma subseq_opt_Cons:
  "subseq xs ys \<Longrightarrow> subseq ((if b then [r] else []) @ xs) (r # ys)"
  by (auto intro: list_emb_Cons)

lemma subseq_test_Cons:
  "subseq xs ys \<Longrightarrow>
   subseq ((if t then [r] else if c then [r'] else []) @ xs) (r # r' # ys)"
  by (auto intro: list_emb_Cons)

lemma subseq_one_Cons: "subseq xs ys \<Longrightarrow> subseq ([r] @ xs) (r # ys)"
  by simp

lemma subseq_opt_last: "subseq (if b then [r] else []) [r]"
  by simp

lemma collectImprovements_subseq: "subseq (collectImprovements ca qa gaps) ruleTable"
  unfolding collectImprovements_def Let_def pushIf_append testRule_append ruleTable_def
    append_assoc append_Nil
  by (intro subseq_opt_Cons subseq_test_Cons subseq_one_Cons subseq_opt_last)

lemma ruleTable_keys: "distinct (map improvementKey ruleTable)"
  by (simp add: ruleTable_def improvementKey_def)

lemma subseq_distinct_map:
  "subseq xs ys \<Longrightarrow> distinct (map f ys) \<Longrightarrow> distinct (map f xs)"
proof (induction xs ys rule: list_emb.induct)
  case (list_emb_Nil ys)
  show ?case by simp
next
  case (list_emb_Cons xs ys y)
  then show ?case by simp
next
  case (list_emb_Cons2 x y xs ys)
  then have "x = y" and "distinct (map f xs)" and "f y \<notin> f ` set ys" by auto
  moreover have "set xs \<subseteq> set ys"
    using list_emb_Cons2.hyps(2) by (auto dest: list_emb_set)
  ultimately show ?case by auto
qed

lemma recommend_subseq: "subseq (recommendImprovements ca qa gaps) ruleTable"
proof (cases "\<exists>a q. ca = Some a \<and> qa = Some q")
  case True
  then obtain a q where eq: "ca = Some a" "qa = Some q" by blast
  have "subseq (filterFirstIndex (collectImprovements a q gaps)) (collectImprovements a q gaps)"
    by (rule filterFirstIndex_subseq)
  with collectImprovements_subseq [of a q gaps] eq show ?thesis
    by (auto simp: recommendImprovements_def intro: subseq_order.order_trans)
next
  case False
  then show ?thesis by (auto simp: recommendImprovements_def split: option.splits)
qed

text \<open>
  The rules push pairwise different strings, so the closing filter of
  \<^verbatim>\<open>recommendImprovements\<close> removes nothing.
\<close>

lemma recommend_filter_identity:
  "recommendImprovements (Some ca) (Some qa) gaps = collectImprovements ca qa gaps"
proof -
  have "distinct (map (\<lambda>x. x) (collectImprovements ca qa gaps))"
    using collectImprovements_subseq
  proof (rule subseq_distinct_map)
    from ruleTable_keys show "distinct (map (\<lambda>x. x) ruleTable)"
      by (simp add: distinct_map)
  qed
  then have "distinct (collectImprovements ca qa gaps)" by simp
  then show ?thesis
    by (simp add: recommendImprovements_def filterFirstIndex_distinct)
qed

text \<open>
  C8. After deduplication the feature list has no two entries whose names have the same
  lower-cased form; it keeps the extraction order, and for every lower-cased name it keeps
  the first feature of the input with that name. This holds for every lower-casing
  function, hence for the platform's \<^verbatim>\<open>toLowerCase\<close> on all of Unicode. The list returned
  by the recommendation engine has no two entries with the same key, and its entries stand
  in the order of the rules.
\<close>

theorem deduplication_keys_distinct:
  "distinct (map (\<lambda>f. lowerCase (name f)) (deduplicateFeatures lowerCase features))
   \<and> subseq (deduplicateFeatures lowerCase features) features
   \<and> (\<forall>f \<in> set features.
        find (\<lambda>g. lowerCase (name g) = lowerCase (name f)) (deduplicateFeatures lowerCase features)
          = find (\<lambda>g. lowerCase (name g) = lowerCase (name f)) features)
   \<and> distinct (map improvementKey (recommendImprovements ca qa gaps))
   \<and> subseq (recommendImprovements ca qa gaps) ruleTable"
proof -
  have keys: "distinct (map (\<lambda>f. lowerCase (name f)) (deduplicateFeatures lowerCase features))"
    using dedupFilter_keys [of lowerCase "{}" features] by (simp add: deduplicateFeatures_def)
  have order: "subseq (deduplicateFeatures lowerCase features) features"
    by (simp add: deduplicateFeatures_def dedupFilter_subseq)
  have first: "\<forall>f \<in> set features.
        find (\<lambda>g. lowerCase (name g) = lowerCase (name f)) (deduplicateFeatures lowerCase features)
          = find (\<lambda>g. lowerCase (name g) = lowerCase (name f)) features"
    by (simp add: deduplicateFeatures_def dedupFilter_first)
  have rec_order: "subseq (recommendImprovements ca qa gaps) ruleTable"
    by (rule recommend_subseq)
  have rec_keys: "distinct (map improvementKey (recommendImprovements ca qa gaps))"
    using rec_order ruleTable_keys by (rule subseq_distinct_map)
  from keys order first rec_keys rec_order show ?thesis by blast
qed

theorem deduplication_keys_distinct_witness:
  "deduplicateFeatures toLowerCase [ft ''Login'', ft ''login'', ft ''Signup'', ft ''LOGIN'']
     = [ft ''Login'', ft ''Signup'']
   \<and> find (\<lambda>g. toLowerCase (name g) = ''login'')
        (deduplicateFeatures toLowerCase [ft ''Login'', ft ''login'', ft ''Signup'', ft ''LOGIN''])
       = Some (ft ''Login'')
   \<and> distinct (map improvementKey
        (recommendImprovements (Some (sampleAnalysis 1 1 1)) (Some sampleQuality)
           (replicate 11 mockGap)))
   \<and> length (recommendImprovements (Some (sampleAnalysis 1 1 1)) (Some sampleQuality)
           (replicate 11 mockGap)) = 14"
proof -
  note inst = deduplication_keys_distinct
    [of toLowerCase "[ft ''Login'', ft ''login'', ft ''Signup'', ft ''LOGIN'']"
        "Some (sampleAnalysis 1 1 1)" "Some sampleQuality" "replicate 11 mockGap"]
  have a: "deduplicateFeatures toLowerCase [ft ''Login'', ft ''login'', ft ''Signup'', ft ''LOGIN'']
     = [ft ''Login'', ft ''Signup'']"
    by (simp add: deduplicateFeatures_def ft_def toLowerCase_def toLowerChar_def)
  have b: "find (\<lambda>g. toLowerCase (name g) = ''login'')
        (deduplicateFeatures toLowerCase [ft ''Login'', ft ''login'', ft ''Signup'', ft ''LOGIN''])
       = Some (ft ''Login'')"
    using inst by (simp add: ft_def toLowerCase_def toLowerChar_def)
  have c: "length (recommendImprovements (Some (sampleAnalysis 1 1 1)) (Some sampleQuality)
           (replicate 11 mockGap)) = 14"
    by code_simp
  from a b c inst show ?thesis by blast
qed

section \<open>Recommendation engine: missing analyses\<close>

text \<open>
  C10. For every gap list, when the codebase analysis or the quality analysis is null the
  recommender returns the empty list: none of the unconditional baseline recommendations
  is produced, however many gaps there are.
\<close>

theorem recommendImprovements_null_empty:
  "codeAnalysis = None \<or> qualityAnalysis = None \<Longrightarrow>
   recommendImprovements codeAnalysis qualityAnalysis gaps = []"
  by (auto simp: recommendImprovements_def split: option.splits)

theorem recommendImprovements_null_empty_witness:
  "recommendImprovements None (Some sampleQuality) (replicate 11 mockGap) = []
   \<and> recommendImprovements (Some (sampleAnalysis 1 1 1)) None (replicate 11 mockGap) = []
   \<and> recommendImprovements (Some (sampleAnalysis 1 1 1)) (Some sampleQuality) [] \<noteq> []"
proof -
  have a: "recommendImprovements None (Some sampleQuality) (replicate 11 mockGap) = []"
    using recommendImprovements_null_empty [of None "Some sampleQuality" "replicate 11 mockGap"]
    by simp
  have b: "recommendImprovements (Some (sampleAnalysis 1 1 1)) None (replicate 11 mockGap) = []"
    using recommendImprovements_null_empty [of "Some (sampleAnalysis 1 1 1)" None "replicate 11 mockGap"]
    by simp
  have c: "recommendImprovements (Some (sampleAnalysis 1 1 1)) (Some sampleQuality) [] \<noteq> []"
    by (simp add: recommendImprovements_def collectImprovements_def filterFirstIndex_def
        pushIf_def testRule_def sampleAnalysis_def sampleQuality_def Let_def enumerate_eq_zip)
  from a b c show ?thesis by simp
qed

end
